theory Spec2Isabelle
  imports Main "HOL-Library.Sublist" "HOL-Library.Multiset"
begin

section \<open>The post loader of the blog (lib/api.ts)\<close>

text \<open>
  The module reads markdown posts from the directory \<^verbatim>\<open>_posts\<close>, splits the front matter
  from the body with gray-matter, renders the body with remark and returns the posts sorted
  by date. Everything beyond returning a value is explicit here: the file system and the
  two libraries are fields of an environment, an exception (a rejected promise of an
  \<^verbatim>\<open>async\<close> function) is the \<open>Inl\<close> of a sum, and \<^verbatim>\<open>await\<close> is sequencing.
\<close>

subsection \<open>Values, errors, the environment\<close>

text \<open>
  A JavaScript \<^verbatim>\<open>Date\<close> holds a time value: the milliseconds since 1970-01-01T00:00:00Z,
  or NaN for an invalid date (\<open>None\<close>).
\<close>

type_synonym jsdate = "int option"

text \<open>
  The values a front-matter field holds once parsed (TypeScript types it \<^verbatim>\<open>any\<close>): the
  scalars of YAML. \<open>JUndefined\<close> is what reading an absent property gives. Numbers are
  integers only; sequences and mappings are left out.
\<close>

datatype jsval = JUndefined | JNull | JBool bool | JNum int | JString string | JDate jsdate

text \<open>
  What the code can throw: the file system's errors (with the path), the \<^verbatim>\<open>TypeError\<close> of
  calling a method that the value does not have, the \<^verbatim>\<open>RangeError\<close> of
  \<^verbatim>\<open>toISOString\<close> on an invalid date, and whatever gray-matter or remark throw.
\<close>

datatype error = ENOENT string | EISDIR string | ENOTDIR string
  | TypeError | RangeError | Thrown string

datatype node = File string | Dir "string list"

text \<open>
  \<open>fs\<close> is the file system as the calls see it, by path; a directory lists its entries in
  the order \<^verbatim>\<open>readdirSync\<close> returns them. \<open>matter\<close> is gray-matter: the parsed front
  matter (\<^verbatim>\<open>data\<close>) and the rest of the text (\<^verbatim>\<open>content\<close>). \<open>remark_html\<close> is
  \<^verbatim>\<open>remark().use(html).process(markdown)\<close> followed by \<^verbatim>\<open>toString()\<close>.
\<close>

record env =
  cwd :: string
  fs :: "string \<rightharpoonup> node"
  matter :: "string \<Rightarrow> error + (string \<rightharpoonup> jsval) \<times> string"
  remark_html :: "string \<Rightarrow> error + string"

definition readdirSync :: "env \<Rightarrow> string \<Rightarrow> error + string list" where
  "readdirSync e path =
     (case fs e path of
        None \<Rightarrow> Inl (ENOENT path)
      | Some (File _) \<Rightarrow> Inl (ENOTDIR path)
      | Some (Dir names) \<Rightarrow> Inr names)"

definition readFileSync :: "env \<Rightarrow> string \<Rightarrow> error + string" where
  "readFileSync e path =
     (case fs e path of
        None \<Rightarrow> Inl (ENOENT path)
      | Some (Dir _) \<Rightarrow> Inl (EISDIR path)
      | Some (File text) \<Rightarrow> Inr text)"

text \<open>
  \<^verbatim>\<open>path.join\<close> on two segments. It also normalises \<^verbatim>\<open>.\<close>, \<^verbatim>\<open>..\<close> and repeated
  separators, which the file system resolves in the same way; \<open>fs\<close> is keyed by the path
  as joined here.
\<close>

definition join :: "string \<Rightarrow> string \<Rightarrow> string" where
  "join a b = a @ ''/'' @ b"

definition postsDirectory :: "env \<Rightarrow> string" where
  "postsDirectory e = join (cwd e) ''_posts''"

text \<open>Reading a property of the \<^verbatim>\<open>data\<close> object: an absent key reads as \<^verbatim>\<open>undefined\<close>.\<close>

definition property :: "(string \<rightharpoonup> jsval) \<Rightarrow> string \<Rightarrow> jsval" where
  "property obj k = (case obj k of None \<Rightarrow> JUndefined | Some v \<Rightarrow> v)"

subsection \<open>Slugs and file names\<close>

text \<open>
  \<^verbatim>\<open>filename.replace(/\.md$/, '')\<close>: the regular expression is tried at each position from
  the left; it matches where the rest of the input is exactly \<^verbatim>\<open>.md\<close> (no \<^verbatim>\<open>m\<close> flag, so
  \<^verbatim>\<open>$\<close> is the end of the input), and the match is replaced by the empty string.
\<close>

fun replace_md_end :: "string \<Rightarrow> string" where
  "replace_md_end [] = []"
| "replace_md_end (c # cs) = (if c # cs = ''.md'' then [] else c # replace_md_end cs)"

definition getSlugFromFilename :: "string \<Rightarrow> string" where
  "getSlugFromFilename filename = replace_md_end filename"

definition getFilenameFromSlug :: "string \<Rightarrow> string" where
  "getFilenameFromSlug slug = slug @ ''.md''"

definition getFilepathFromSlug :: "env \<Rightarrow> string \<Rightarrow> string" where
  "getFilepathFromSlug e slug = join (postsDirectory e) (getFilenameFromSlug slug)"

definition getPostSlugs :: "env \<Rightarrow> error + string list" where
  "getPostSlugs e = readdirSync e (postsDirectory e)"

text \<open>\<^verbatim>\<open>getAllSlugs\<close>: the directory listing, mapped through \<^verbatim>\<open>getSlugFromFilename\<close>.\<close>

definition getAllSlugs :: "env \<Rightarrow> error + string list" where
  "getAllSlugs e =
     (case readdirSync e (postsDirectory e) of
        Inl err \<Rightarrow> Inl err
      | Inr filenames \<Rightarrow> Inr (map getSlugFromFilename filenames))"

subsection \<open>Dates\<close>

text \<open>
  \<^verbatim>\<open>Date.prototype.toISOString\<close> is a builtin; it is modelled after ECMAScript (21.4.1 and
  21.4.4.36). The time value is split into the day number and the time within the day;
  the day number gives year, month (0 to 11) and day of the month in the proleptic
  Gregorian calendar, in UTC.
\<close>

definition msPerDay :: int where
  "msPerDay = 86400000"

definition Day :: "int \<Rightarrow> int" where
  "Day t = t div msPerDay"

definition TimeWithinDay :: "int \<Rightarrow> int" where
  "TimeWithinDay t = t mod msPerDay"

text \<open>
  Year, month (1 to 12) and day of the month of a day number, counting days from
  0000-03-01 in eras of 400 years (146097 days); the year of that count starts in March.
\<close>

definition civil_from_days :: "int \<Rightarrow> int \<times> int \<times> int" where
  "civil_from_days z0 =
     (let z = z0 + 719468;
          era = z div 146097;
          doe = z - era * 146097;
          yoe = (doe - doe div 1460 + doe div 36524 - doe div 146096) div 365;
          y = yoe + era * 400;
          doy = doe - (365 * yoe + yoe div 4 - yoe div 100);
          mp = (5 * doy + 2) div 153;
          d = doy - (153 * mp + 2) div 5 + 1;
          m = (if mp < 10 then mp + 3 else mp - 9)
      in (if m \<le> 2 then y + 1 else y, m, d))"

definition YearFromTime :: "int \<Rightarrow> int" where
  "YearFromTime t = fst (civil_from_days (Day t))"

definition MonthFromTime :: "int \<Rightarrow> int" where
  "MonthFromTime t = fst (snd (civil_from_days (Day t))) - 1"

definition DateFromTime :: "int \<Rightarrow> int" where
  "DateFromTime t = snd (snd (civil_from_days (Day t)))"

definition HourFromTime :: "int \<Rightarrow> int" where
  "HourFromTime t = (t div 3600000) mod 24"

definition MinFromTime :: "int \<Rightarrow> int" where
  "MinFromTime t = (t div 60000) mod 60"

definition SecFromTime :: "int \<Rightarrow> int" where
  "SecFromTime t = (t div 1000) mod 60"

definition msFromTime :: "int \<Rightarrow> int" where
  "msFromTime t = t mod 1000"

definition digit_char :: "int \<Rightarrow> char" where
  "digit_char n = ''0123456789'' ! nat (n mod 10)"

text \<open>The last \<open>w\<close> decimal digits of \<open>n\<close>, most significant first: a field of fixed width.\<close>

fun dec_fixed :: "nat \<Rightarrow> int \<Rightarrow> string" where
  "dec_fixed 0 n = []"
| "dec_fixed (Suc w) n = dec_fixed w (n div 10) @ [digit_char n]"

text \<open>
  The year of the ISO format: four digits from 0 to 9999, otherwise the expanded year, a
  sign and six digits.
\<close>

definition iso_year :: "int \<Rightarrow> string" where
  "iso_year y =
     (if 0 \<le> y \<and> y \<le> 9999 then dec_fixed 4 y
      else (if y < 0 then ''-'' else ''+'') @ dec_fixed 6 \<bar>y\<bar>)"

definition toISOString :: "jsdate \<Rightarrow> error + string" where
  "toISOString d =
     (case d of
        None \<Rightarrow> Inl RangeError
      | Some t \<Rightarrow>
          Inr (iso_year (YearFromTime t) @ ''-'' @ dec_fixed 2 (MonthFromTime t + 1) @ ''-'' @
               dec_fixed 2 (DateFromTime t) @ ''T'' @ dec_fixed 2 (HourFromTime t) @ '':'' @
               dec_fixed 2 (MinFromTime t) @ '':'' @ dec_fixed 2 (SecFromTime t) @ ''.'' @
               dec_fixed 3 (msFromTime t) @ ''Z''))"

text \<open>\<^verbatim>\<open>s.substring(0, n)\<close>: the first \<open>n\<close> characters, all of \<open>s\<close> when it is shorter.\<close>

definition substring0 :: "nat \<Rightarrow> string \<Rightarrow> string" where
  "substring0 n s = take n s"

text \<open>\<^verbatim>\<open>getFriendlyDate\<close>: \<^verbatim>\<open>date.toISOString().substring(0, 10)\<close>.\<close>

definition getFriendlyDate :: "jsdate \<Rightarrow> error + string" where
  "getFriendlyDate d =
     (case toISOString d of
        Inl err \<Rightarrow> Inl err
      | Inr s \<Rightarrow> Inr (substring0 10 s))"

text \<open>
  The year-month-day rendering the specification names, to compare \<^verbatim>\<open>getFriendlyDate\<close>
  with: the year in decimal with all its digits, padded with zeros to four, then month and
  day in two digits each.
\<close>

fun dec :: "nat \<Rightarrow> string" where
  "dec n = (if n < 10 then [digit_char (int n)] else dec (n div 10) @ [digit_char (int n)])"

definition pad_start :: "nat \<Rightarrow> string \<Rightarrow> string" where
  "pad_start w s = replicate (w - length s) CHR ''0'' @ s"

definition ymd_rendering :: "int \<Rightarrow> string" where
  "ymd_rendering t =
     (let y = YearFromTime t
      in (if y < 0 then ''-'' else []) @ pad_start 4 (dec (nat \<bar>y\<bar>)) @ ''-'' @
         dec_fixed 2 (MonthFromTime t + 1) @ ''-'' @ dec_fixed 2 (DateFromTime t))"

declare dec.simps [simp del]

subsection \<open>Posts\<close>

text \<open>
  The record \<^verbatim>\<open>getPostFromSlug\<close> returns. \<open>title\<close> is whatever \<^verbatim>\<open>data.title\<close> reads.
  \<open>date\<close> is the \<^verbatim>\<open>Date\<close> object of \<^verbatim>\<open>data.date\<close>: a record is only built after
  \<^verbatim>\<open>getFriendlyDate(data.date)\<close> has returned, and of the values of \<open>jsval\<close> only a
  \<^verbatim>\<open>Date\<close> has the method \<^verbatim>\<open>toISOString\<close>.
\<close>

record post =
  title :: jsval
  date :: jsdate
  slug :: string
  friendlyDate :: string
  content :: string
  contentHtml :: string

definition markdownToHtml :: "env \<Rightarrow> string \<Rightarrow> error + string" where
  "markdownToHtml e markdown = remark_html e markdown"

text \<open>
  \<^verbatim>\<open>getPostFromSlug\<close>. The fields of the object literal are evaluated in order, so
  \<^verbatim>\<open>getFriendlyDate\<close> throws before the markdown is rendered. Calling
  \<^verbatim>\<open>toISOString\<close> on \<^verbatim>\<open>undefined\<close>, \<^verbatim>\<open>null\<close> or a value without that method is a
  \<^verbatim>\<open>TypeError\<close>.
\<close>

definition getPostFromSlug :: "env \<Rightarrow> string \<Rightarrow> error + post" where
  "getPostFromSlug e slug' =
     (case readFileSync e (getFilepathFromSlug e slug') of
        Inl err \<Rightarrow> Inl err
      | Inr fileContents \<Rightarrow>
          (case matter e fileContents of
             Inl err \<Rightarrow> Inl err
           | Inr (data, content') \<Rightarrow>
               (case property data ''date'' of
                  JDate d \<Rightarrow>
                    (case getFriendlyDate d of
                       Inl err \<Rightarrow> Inl err
                     | Inr friendly \<Rightarrow>
                         (case markdownToHtml e content' of
                            Inl err \<Rightarrow> Inl err
                          | Inr html \<Rightarrow>
                              Inr \<lparr>title = property data ''title'', date = d, slug = slug',
                                   friendlyDate = friendly, content = content',
                                   contentHtml = html\<rparr>))
                | _ \<Rightarrow> Inl TypeError)))"

definition getPostFromFilename :: "env \<Rightarrow> string \<Rightarrow> error + post" where
  "getPostFromFilename e filename = getPostFromSlug e (getSlugFromFilename filename)"

subsection \<open>Sorting an array with a comparison function\<close>

text \<open>
  \<^verbatim>\<open>Array.prototype.sort\<close> is a builtin of the engine. The comparison function of
  \<^verbatim>\<open>getAllPosts\<close> never returns 0, so it is not a consistent comparator in the sense of
  ECMAScript, which then leaves the order to the implementation. The model follows V8, the
  engine of Node.js, which runs this module: its TimSort (\<^verbatim>\<open>third_party/v8/builtins/array-sort.tq\<close>).
  The array is a list; a run on the stack of pending runs, there a base index and a length,
  is here the list of its elements, and the runs in stack order, concatenated, are the part
  of the array already processed. V8 merges two neighbouring runs by galloping
  (\<^verbatim>\<open>MergeLow\<close>, \<^verbatim>\<open>MergeHigh\<close>); the model merges them element by element, asking the
  comparison function the same question as both do, \<^verbatim>\<open>comparefn(b, a) < 0\<close> for
  \<open>b\<close> of the later run and \<open>a\<close> of the earlier one.
\<close>

type_synonym 'a comparefn = "'a \<Rightarrow> 'a \<Rightarrow> int"

text \<open>
  The loop of \<^verbatim>\<open>CountAndMakeRun\<close>: how many further elements continue the run that ends
  in \<open>previousElement\<close>.
\<close>

fun run_extent :: "'a comparefn \<Rightarrow> bool \<Rightarrow> 'a \<Rightarrow> 'a list \<Rightarrow> nat" where
  "run_extent cmp isDescending previousElement [] = 0"
| "run_extent cmp isDescending previousElement (currentElement # rest) =
     (let order = cmp currentElement previousElement
      in if (if isDescending then order \<ge> 0 else order < 0) then 0
         else Suc (run_extent cmp isDescending currentElement rest))"

text \<open>
  \<^verbatim>\<open>CountAndMakeRun\<close> on the rest of the array (never empty): the length of the run at
  its start, and the array with that run reversed when it is strictly descending.
\<close>

definition count_and_make_run :: "'a comparefn \<Rightarrow> 'a list \<Rightarrow> 'a list \<times> nat" where
  "count_and_make_run cmp a =
     (case a of
        [] \<Rightarrow> (a, 0)
      | [x] \<Rightarrow> (a, 1)
      | elementHigh # elementLow # rest \<Rightarrow>
          (let isDescending = cmp elementLow elementHigh < 0;
               runLength = 2 + run_extent cmp isDescending elementLow rest
           in (if isDescending then rev (take runLength a) @ drop runLength a else a,
               runLength)))"

text \<open>The binary search of \<^verbatim>\<open>BinaryInsertionSort\<close> for the place of the pivot.\<close>

function find_insertion_point :: "'a comparefn \<Rightarrow> 'a \<Rightarrow> 'a list \<Rightarrow> nat \<Rightarrow> nat \<Rightarrow> nat" where
  "find_insertion_point cmp pivot a left right =
     (if left < right then
        (let mid = left + (right - left) div 2
         in if cmp pivot (a ! mid) < 0 then find_insertion_point cmp pivot a left mid
            else find_insertion_point cmp pivot a (mid + 1) right)
      else left)"
  by pat_completeness auto
termination
  by (relation "measure (\<lambda>(cmp, pivot, a, left, right). right - left)") auto

declare find_insertion_point.simps [simp del]

text \<open>
  The outer loop of \<^verbatim>\<open>BinaryInsertionSort\<close>: the elements from \<open>left\<close> to \<open>start - 1\<close>
  slide up by one and the pivot is stored at \<open>left\<close>.
\<close>

function binary_insertion_loop :: "'a comparefn \<Rightarrow> 'a list \<Rightarrow> nat \<Rightarrow> nat \<Rightarrow> 'a list" where
  "binary_insertion_loop cmp a start high =
     (if start < high then
        (let pivot = a ! start;
             left = find_insertion_point cmp pivot a 0 start
         in binary_insertion_loop cmp
              (take left a @ pivot # take (start - left) (drop left a) @ drop (Suc start) a)
              (Suc start) high)
      else a)"
  by pat_completeness auto
termination
  by (relation "measure (\<lambda>(cmp, a, start, high). high - start)") auto

declare binary_insertion_loop.simps [simp del]

definition binary_insertion_sort :: "'a comparefn \<Rightarrow> 'a list \<Rightarrow> nat \<Rightarrow> nat \<Rightarrow> 'a list" where
  "binary_insertion_sort cmp a startArg high =
     binary_insertion_loop cmp a (if startArg = 0 then startArg + 1 else startArg) high"

text \<open>Merging the earlier run \<open>as\<close> with the later run \<open>bs\<close>.\<close>

fun merge_runs :: "'a comparefn \<Rightarrow> 'a list \<Rightarrow> 'a list \<Rightarrow> 'a list" where
  "merge_runs cmp [] bs = bs"
| "merge_runs cmp as [] = as"
| "merge_runs cmp (a # as) (b # bs) =
     (if cmp b a < 0 then b # merge_runs cmp (a # as) bs
      else a # merge_runs cmp as (b # bs))"

text \<open>\<^verbatim>\<open>MergeAt\<close>: the runs \<open>i\<close> and \<open>i + 1\<close> of the stack become one.\<close>

definition merge_at :: "'a comparefn \<Rightarrow> 'a list list \<Rightarrow> nat \<Rightarrow> 'a list list" where
  "merge_at cmp pendingRuns i =
     take i pendingRuns @ [merge_runs cmp (pendingRuns ! i) (pendingRuns ! (i + 1))] @
     drop (i + 2) pendingRuns"

definition run_invariant_established :: "'a list list \<Rightarrow> nat \<Rightarrow> bool" where
  "run_invariant_established pendingRuns n =
     (if n < 2 then True
      else length (pendingRuns ! (n - 2)) >
           length (pendingRuns ! (n - 1)) + length (pendingRuns ! n))"

lemma length_merge_at:
  "i + 2 \<le> length pendingRuns \<Longrightarrow> length (merge_at cmp pendingRuns i) = length pendingRuns - 1"
  by (simp add: merge_at_def)

function merge_collapse :: "'a comparefn \<Rightarrow> 'a list list \<Rightarrow> 'a list list" where
  "merge_collapse cmp pendingRuns =
     (if length pendingRuns > 1 then
        (let n = length pendingRuns - 2
         in if \<not> run_invariant_established pendingRuns (n + 1) \<or>
               \<not> run_invariant_established pendingRuns n
            then merge_collapse cmp
                   (merge_at cmp pendingRuns
                      (if length (pendingRuns ! (n - 1)) < length (pendingRuns ! (n + 1))
                       then n - 1 else n))
            else if length (pendingRuns ! n) \<le> length (pendingRuns ! (n + 1))
            then merge_collapse cmp (merge_at cmp pendingRuns n)
            else pendingRuns)
      else pendingRuns)"
  by pat_completeness auto
termination
  by (relation "measure (\<lambda>(cmp, pendingRuns). length pendingRuns)")
     (auto simp: length_merge_at)

declare merge_collapse.simps [simp del]

function merge_force_collapse :: "'a comparefn \<Rightarrow> 'a list list \<Rightarrow> 'a list list" where
  "merge_force_collapse cmp pendingRuns =
     (if length pendingRuns > 1 then
        (let n = length pendingRuns - 2
         in merge_force_collapse cmp
              (merge_at cmp pendingRuns
                 (if n > 0 \<and> length (pendingRuns ! (n - 1)) < length (pendingRuns ! (n + 1))
                  then n - 1 else n)))
      else pendingRuns)"
  by pat_completeness auto
termination
  by (relation "measure (\<lambda>(cmp, pendingRuns). length pendingRuns)")
     (auto simp: length_merge_at)

declare merge_force_collapse.simps [simp del]

text \<open>\<^verbatim>\<open>ComputeMinRunLength\<close>: \<open>r\<close> becomes 1 as soon as a bit is shifted out.\<close>

function min_run_loop :: "nat \<Rightarrow> nat \<Rightarrow> nat" where
  "min_run_loop n r = (if n \<ge> 64 then min_run_loop (n div 2) (max r (n mod 2)) else n + r)"
  by pat_completeness auto
termination
  by (relation "measure (\<lambda>(n, r). n)") auto

declare min_run_loop.simps [simp del]

definition compute_min_run_length :: "nat \<Rightarrow> nat" where
  "compute_min_run_length nArg = min_run_loop nArg 0"

text \<open>
  One round of the loop of \<^verbatim>\<open>ArrayTimSortImpl\<close> on the rest of the array: the next run,
  extended by binary insertion to \<open>minRunLength\<close> elements (or to all that remain) when it
  is shorter, and what remains after it.
\<close>

definition next_run :: "'a comparefn \<Rightarrow> nat \<Rightarrow> 'a list \<Rightarrow> 'a list \<times> 'a list" where
  "next_run cmp minRunLength a =
     (let (a1, runLength) = count_and_make_run cmp a
      in if runLength < minRunLength then
           (let forcedRunLength = min minRunLength (length a);
                a2 = binary_insertion_sort cmp a1 runLength forcedRunLength
            in (take forcedRunLength a2, drop forcedRunLength a2))
         else (take runLength a1, drop runLength a1))"

lemma run_extent_le: "run_extent cmp isDescending previousElement rest \<le> length rest"
  by (induction rest arbitrary: previousElement) (auto simp: Let_def)

lemma count_and_make_run_length:
  "count_and_make_run cmp a = (a1, runLength) \<Longrightarrow>
   length a1 = length a \<and> runLength \<le> length a \<and> (a \<noteq> [] \<longrightarrow> 0 < runLength)"
proof (cases a)
  case Nil
  assume "count_and_make_run cmp a = (a1, runLength)"
  with Nil show ?thesis by (simp add: count_and_make_run_def)
next
  case (Cons x xs)
  assume r: "count_and_make_run cmp a = (a1, runLength)"
  show ?thesis
  proof (cases xs)
    case Nil
    with Cons r show ?thesis by (auto simp: count_and_make_run_def)
  next
    case c2: (Cons y ys)
    have "run_extent cmp (cmp y x < 0) y ys \<le> length ys" by (rule run_extent_le)
    with Cons c2 r show ?thesis
      by (auto simp: count_and_make_run_def Let_def split: if_splits)
  qed
qed

lemma find_insertion_point_bounds:
  "left \<le> right \<Longrightarrow>
   left \<le> find_insertion_point cmp pivot a left right \<and>
   find_insertion_point cmp pivot a left right \<le> right"
proof (induction cmp pivot a left right rule: find_insertion_point.induct)
  case (1 cmp pivot a left right)
  show ?case
  proof (cases "left < right")
    case False
    then have "find_insertion_point cmp pivot a left right = left"
      by (subst find_insertion_point.simps) simp
    with "1.prems" show ?thesis by simp
  next
    case True
    define mid where "mid = left + (right - left) div 2"
    from True have m: "left \<le> mid" "mid < right" by (auto simp: mid_def)
    show ?thesis
    proof (cases "cmp pivot (a ! mid) < 0")
      case lt: True
      from "1.IH"(1)[OF True mid_def lt] m
      have "left \<le> find_insertion_point cmp pivot a left mid \<and>
            find_insertion_point cmp pivot a left mid \<le> mid" by simp
      moreover have "find_insertion_point cmp pivot a left right =
            find_insertion_point cmp pivot a left mid"
        using True lt by (subst find_insertion_point.simps) (simp add: mid_def Let_def)
      ultimately show ?thesis using m by simp
    next
      case ge: False
      from "1.IH"(2)[OF True mid_def ge] m
      have "mid + 1 \<le> find_insertion_point cmp pivot a (mid + 1) right \<and>
            find_insertion_point cmp pivot a (mid + 1) right \<le> right" by simp
      moreover have "find_insertion_point cmp pivot a left right =
            find_insertion_point cmp pivot a (mid + 1) right"
        using True ge by (subst find_insertion_point.simps) (simp add: mid_def Let_def)
      ultimately show ?thesis using m by simp
    qed
  qed
qed

lemma length_binary_insertion_loop:
  "high \<le> length a \<Longrightarrow> length (binary_insertion_loop cmp a start high) = length a"
proof (induction cmp a start high rule: binary_insertion_loop.induct)
  case (1 cmp a start high)
  show ?case
  proof (cases "start < high")
    case False
    then show ?thesis by (subst binary_insertion_loop.simps) simp
  next
    case True
    define left where "left = find_insertion_point cmp (a ! start) a 0 start"
    define a' where
      "a' = take left a @ (a ! start) # take (start - left) (drop left a) @ drop (Suc start) a"
    have l: "left \<le> start"
      using find_insertion_point_bounds[of 0 start cmp "a ! start" a] by (simp add: left_def)
    with True "1.prems" have len: "length a' = length a" by (simp add: a'_def)
    have "length (binary_insertion_loop cmp a' (Suc start) high) = length a'"
      using "1.IH"[OF True refl left_def] "1.prems" len by (simp add: a'_def)
    moreover have "binary_insertion_loop cmp a start high =
        binary_insertion_loop cmp a' (Suc start) high"
      using True by (subst binary_insertion_loop.simps) (simp add: a'_def left_def Let_def)
    ultimately show ?thesis using len by simp
  qed
qed

lemma next_run_length:
  assumes "next_run cmp minRunLength a = (run, rest)"
  shows "length run + length rest = length a" and "a \<noteq> [] \<Longrightarrow> 0 < length run"
proof -
  obtain a1 runLength where c: "count_and_make_run cmp a = (a1, runLength)"
    by (cases "count_and_make_run cmp a")
  note cl = count_and_make_run_length[OF c]
  have "length run + length rest = length a \<and> (a \<noteq> [] \<longrightarrow> 0 < length run)"
  proof (cases "runLength < minRunLength")
    case False
    with assms c cl show ?thesis by (auto simp: next_run_def)
  next
    case True
    define forced where "forced = min minRunLength (length a)"
    define a2 where "a2 = binary_insertion_sort cmp a1 runLength forced"
    have "length a2 = length a"
      using cl by (simp add: a2_def binary_insertion_sort_def forced_def
          length_binary_insertion_loop)
    moreover from assms c True have "run = take forced a2" "rest = drop forced a2"
      by (simp_all add: next_run_def Let_def a2_def forced_def)
    moreover have "a \<noteq> [] \<Longrightarrow> 0 < forced" using True cl by (auto simp: forced_def)
    moreover have "forced \<le> length a" by (simp add: forced_def)
    ultimately show ?thesis by auto
  qed
  then show "length run + length rest = length a" and "a \<noteq> [] \<Longrightarrow> 0 < length run"
    by auto
qed

text \<open>
  The loop of \<^verbatim>\<open>ArrayTimSortImpl\<close>: each run is pushed on the stack of pending runs,
  which \<^verbatim>\<open>MergeCollapse\<close> then brings back to its invariant.
\<close>

function tim_sort_loop ::
  "'a comparefn \<Rightarrow> nat \<Rightarrow> 'a list list \<Rightarrow> 'a list \<Rightarrow> 'a list list" where
  "tim_sort_loop cmp minRunLength pendingRuns a =
     (if a = [] then pendingRuns
      else (case next_run cmp minRunLength a of
              (run, rest) \<Rightarrow>
                tim_sort_loop cmp minRunLength (merge_collapse cmp (pendingRuns @ [run])) rest))"
  by pat_completeness auto
termination
proof (relation "measure (\<lambda>(cmp, minRunLength, pendingRuns, a). length a)")
  show "wf (measure (\<lambda>(cmp, minRunLength, pendingRuns, a). length a))" by simp
next
  fix cmp :: "'a comparefn" and minRunLength :: nat and pendingRuns :: "'a list list"
    and a x :: "'a list" and y :: "'a list"
  assume "a \<noteq> []" and "(x, y) = next_run cmp minRunLength a"
  then have "length x + length y = length a" "0 < length x"
    using next_run_length[of cmp minRunLength a x y] by simp_all
  then show "((cmp, minRunLength, merge_collapse cmp (pendingRuns @ [x]), y),
              (cmp, minRunLength, pendingRuns, a))
             \<in> measure (\<lambda>(cmp, minRunLength, pendingRuns, a). length a)"
    by (cases x) simp_all
qed

declare tim_sort_loop.simps [simp del]

text \<open>
  \<^verbatim>\<open>array.sort(comparefn)\<close>: nothing to do below two elements; otherwise the runs are
  built and merged, and \<^verbatim>\<open>MergeForceCollapse\<close> leaves one run, the sorted array.
\<close>

definition array_sort :: "'a comparefn \<Rightarrow> 'a list \<Rightarrow> 'a list" where
  "array_sort cmp a =
     (if length a < 2 then a
      else concat (merge_force_collapse cmp
             (tim_sort_loop cmp (compute_min_run_length (length a)) [] a)))"

subsection \<open>All posts\<close>

text \<open>\<^verbatim>\<open>post1.date > post2.date\<close>: the time values are compared; NaN compares false.\<close>

definition date_gt :: "jsdate \<Rightarrow> jsdate \<Rightarrow> bool" where
  "date_gt d1 d2 = (case (d1, d2) of (Some t1, Some t2) \<Rightarrow> t2 < t1 | _ \<Rightarrow> False)"

definition compare_posts :: "post comparefn" where
  "compare_posts post1 post2 = (if date_gt (date post1) (date post2) then - 1 else 1)"

text \<open>The \<^verbatim>\<open>for\<close> loop of \<^verbatim>\<open>getAllPosts\<close>: an error leaves the loop and the function.\<close>

fun fetch_posts :: "env \<Rightarrow> string list \<Rightarrow> post list \<Rightarrow> error + post list" where
  "fetch_posts e [] posts = Inr posts"
| "fetch_posts e (filename # filenames) posts =
     (case getPostFromFilename e filename of
        Inl err \<Rightarrow> Inl err
      | Inr p \<Rightarrow> fetch_posts e filenames (posts @ [p]))"

definition getAllPosts :: "env \<Rightarrow> error + post list" where
  "getAllPosts e =
     (case readdirSync e (postsDirectory e) of
        Inl err \<Rightarrow> Inl err
      | Inr filenames \<Rightarrow>
          (case fetch_posts e filenames [] of
             Inl err \<Rightarrow> Inl err
           | Inr posts \<Rightarrow> Inr (array_sort compare_posts posts)))"

subsection \<open>What sorting is to achieve\<close>

text \<open>
  The notions the results about \<open>array_sort\<close> are stated with. \<open>orders_by cmp key S\<close>:
  on the elements of \<open>S\<close>, the comparison function puts \<open>x\<close> before \<open>y\<close> (answers a
  negative number) exactly when the key of \<open>x\<close> is the greater one. \<open>desc_by key xs\<close>: the
  keys never increase along \<open>xs\<close>. \<open>ties_kept key xs ys\<close>: for each key, the elements
  with that key are the same in \<open>xs\<close> and in \<open>ys\<close> and in the same order.
\<close>

definition orders_by :: "'a comparefn \<Rightarrow> ('a \<Rightarrow> int) \<Rightarrow> 'a set \<Rightarrow> bool" where
  "orders_by cmp key S = (\<forall>x\<in>S. \<forall>y\<in>S. (cmp x y < 0) = (key y < key x))"

definition desc_by :: "('a \<Rightarrow> int) \<Rightarrow> 'a list \<Rightarrow> bool" where
  "desc_by key xs = sorted_wrt (\<lambda>x y. key y \<le> key x) xs"

definition ties_kept :: "('a \<Rightarrow> int) \<Rightarrow> 'a list \<Rightarrow> 'a list \<Rightarrow> bool" where
  "ties_kept key xs ys = (\<forall>k. filter (\<lambda>x. key x = k) xs = filter (\<lambda>x. key x = k) ys)"

definition runs_ok :: "('a \<Rightarrow> int) \<Rightarrow> 'a set \<Rightarrow> 'a list list \<Rightarrow> bool" where
  "runs_ok key S runs = (\<forall>r\<in>set runs. desc_by key r \<and> set r \<subseteq> S)"

subsection \<open>Example directories\<close>

text \<open>
  In the examples gray-matter is given by its results on the texts of the files; a text
  without front matter has no data and is all content.

  Two posts, \<^verbatim>\<open>a.md\<close> of 2024-01-02 and \<^verbatim>\<open>b.md\<close> of 2024-01-01 (the time values of
  midnight UTC, as the YAML parser builds them).
\<close>

definition env_ab :: env where
  "env_ab =
     \<lparr>cwd = ''/blog'',
      fs = [''/blog/_posts'' \<mapsto> Dir [''a.md'', ''b.md''],
            ''/blog/_posts/a.md'' \<mapsto> File ''A'',
            ''/blog/_posts/b.md'' \<mapsto> File ''B''],
      matter = (\<lambda>text.
        if text = ''A'' then
          Inr ([''title'' \<mapsto> JString ''a'', ''date'' \<mapsto> JDate (Some 1704153600000)], ''body a'')
        else if text = ''B'' then
          Inr ([''title'' \<mapsto> JString ''b'', ''date'' \<mapsto> JDate (Some 1704067200000)], ''body b'')
        else Inr (Map.empty, text)),
      remark_html = (\<lambda>markdown. Inr (''<p>'' @ markdown @ ''</p>''))\<rparr>"

definition post_a :: post where
  "post_a = \<lparr>title = JString ''a'', date = Some 1704153600000, slug = ''a'',
             friendlyDate = ''2024-01-02'', content = ''body a'',
             contentHtml = ''<p>body a</p>''\<rparr>"

definition post_b :: post where
  "post_b = \<lparr>title = JString ''b'', date = Some 1704067200000, slug = ''b'',
             friendlyDate = ''2024-01-01'', content = ''body b'',
             contentHtml = ''<p>body b</p>''\<rparr>"

text \<open>The same two files, listed by the directory in the other order.\<close>

definition env_ba :: env where
  "env_ba = env_ab\<lparr>fs := (fs env_ab)(''/blog/_posts'' \<mapsto> Dir [''b.md'', ''a.md''])\<rparr>"

text \<open>Three posts, the first and the last of the same day (2024-01-01).\<close>

definition env_ties :: env where
  "env_ties =
     \<lparr>cwd = ''/blog'',
      fs = [''/blog/_posts'' \<mapsto> Dir [''x.md'', ''y.md'', ''z.md''],
            ''/blog/_posts/x.md'' \<mapsto> File ''X'',
            ''/blog/_posts/y.md'' \<mapsto> File ''Y'',
            ''/blog/_posts/z.md'' \<mapsto> File ''Z''],
      matter = (\<lambda>text.
        if text = ''X'' then
          Inr ([''title'' \<mapsto> JString ''x'', ''date'' \<mapsto> JDate (Some 1704067200000)], ''body x'')
        else if text = ''Y'' then
          Inr ([''title'' \<mapsto> JString ''y'', ''date'' \<mapsto> JDate (Some 1704153600000)], ''body y'')
        else if text = ''Z'' then
          Inr ([''title'' \<mapsto> JString ''z'', ''date'' \<mapsto> JDate (Some 1704067200000)], ''body z'')
        else Inr (Map.empty, text)),
      remark_html = (\<lambda>markdown. Inr (''<p>'' @ markdown @ ''</p>''))\<rparr>"

definition post_x :: post where
  "post_x = \<lparr>title = JString ''x'', date = Some 1704067200000, slug = ''x'',
             friendlyDate = ''2024-01-01'', content = ''body x'',
             contentHtml = ''<p>body x</p>''\<rparr>"

definition post_y :: post where
  "post_y = \<lparr>title = JString ''y'', date = Some 1704153600000, slug = ''y'',
             friendlyDate = ''2024-01-02'', content = ''body y'',
             contentHtml = ''<p>body y</p>''\<rparr>"

definition post_z :: post where
  "post_z = \<lparr>title = JString ''z'', date = Some 1704067200000, slug = ''z'',
             friendlyDate = ''2024-01-01'', content = ''body z'',
             contentHtml = ''<p>body z</p>''\<rparr>"

text \<open>
  A directory with a post that has a date and no title, a file that is not markdown, and
  a post that has a title and no date.
\<close>

definition untitled_data :: "string \<rightharpoonup> jsval" where
  "untitled_data = [''date'' \<mapsto> JDate (Some 1704067200000)]"

definition undated_data :: "string \<rightharpoonup> jsval" where
  "undated_data = [''title'' \<mapsto> JString ''v'']"

definition env_mixed :: env where
  "env_mixed =
     \<lparr>cwd = ''/blog'',
      fs = [''/blog/_posts'' \<mapsto> Dir [''untitled.md'', ''notes.txt'', ''undated.md''],
            ''/blog/_posts/untitled.md'' \<mapsto> File ''U'',
            ''/blog/_posts/notes.txt'' \<mapsto> File ''N'',
            ''/blog/_posts/undated.md'' \<mapsto> File ''V''],
      matter = (\<lambda>text.
        if text = ''U'' then Inr (untitled_data, ''body u'')
        else if text = ''V'' then Inr (undated_data, ''body v'')
        else Inr (Map.empty, text)),
      remark_html = (\<lambda>markdown. Inr (''<p>'' @ markdown @ ''</p>''))\<rparr>"

definition post_untitled :: post where
  "post_untitled = \<lparr>title = JUndefined, date = Some 1704067200000, slug = ''untitled'',
             friendlyDate = ''2024-01-01'', content = ''body u'',
             contentHtml = ''<p>body u</p>''\<rparr>"

text \<open>
  A directory with an entry that is not markdown, \<^verbatim>\<open>notes.txt\<close>, next to a file
  \<^verbatim>\<open>notes.txt.md\<close> that the directory does not list.
\<close>

definition env_notes :: env where
  "env_notes =
     \<lparr>cwd = ''/blog'',
      fs = [''/blog/_posts'' \<mapsto> Dir [''a.md'', ''notes.txt''],
            ''/blog/_posts/a.md'' \<mapsto> File ''A'',
            ''/blog/_posts/notes.txt'' \<mapsto> File ''N'',
            ''/blog/_posts/notes.txt.md'' \<mapsto> File ''M''],
      matter = (\<lambda>text.
        if text = ''A'' then
          Inr ([''title'' \<mapsto> JString ''a'', ''date'' \<mapsto> JDate (Some 1704153600000)], ''body a'')
        else if text = ''M'' then
          Inr ([''title'' \<mapsto> JString ''m'', ''date'' \<mapsto> JDate (Some 1704240000000)], ''body m'')
        else Inr (Map.empty, text)),
      remark_html = (\<lambda>markdown. Inr (''<p>'' @ markdown @ ''</p>''))\<rparr>"

definition post_notes :: post where
  "post_notes = \<lparr>title = JString ''m'', date = Some 1704240000000, slug = ''notes.txt'',
             friendlyDate = ''2024-01-03'', content = ''body m'',
             contentHtml = ''<p>body m</p>''\<rparr>"

subsection \<open>The words of the specification\<close>

text \<open>\<^verbatim>\<open>p1.date >= p2.date\<close> on two dates: both valid, the first not before the second.\<close>

definition date_ge :: "jsdate \<Rightarrow> jsdate \<Rightarrow> bool" where
  "date_ge d1 d2 = (case (d1, d2) of (Some t1, Some t2) \<Rightarrow> t2 \<le> t1 | _ \<Rightarrow> False)"

text \<open>
  A string in the format \<^verbatim>\<open>YYYY-MM-DD\<close>, which the documentation of
  \<^verbatim>\<open>getFriendlyDate\<close> gives as its result: ten characters, digits but for the two
  hyphens.
\<close>

definition is_digit :: "char \<Rightarrow> bool" where
  "is_digit c = (c \<in> set ''0123456789'')"

definition is_ymd_format :: "string \<Rightarrow> bool" where
  "is_ymd_format s =
     (length s = 10 \<and> list_all is_digit (take 4 s) \<and> s ! 4 = CHR ''-'' \<and>
      list_all is_digit (take 2 (drop 5 s)) \<and> s ! 7 = CHR ''-'' \<and>
      list_all is_digit (drop 8 s))"

text \<open>A file name with a single trailing \<^verbatim>\<open>.md\<close> removed when it has one.\<close>

definition without_md_extension :: "string \<Rightarrow> string" where
  "without_md_extension f = (if suffix ''.md'' f then take (length f - 3) f else f)"

text \<open>The time value of the date of a post, the key its place in the sorted list goes by.\<close>

definition time_of :: "post \<Rightarrow> int" where
  "time_of p = (case date p of Some t \<Rightarrow> t | None \<Rightarrow> 0)"

section \<open>Properties\<close>

subsection \<open>The sort\<close>

lemma ties_kept_refl: "ties_kept key xs xs"
  by (simp add: ties_kept_def)

lemma ties_kept_trans: "ties_kept key xs ys \<Longrightarrow> ties_kept key ys zs \<Longrightarrow> ties_kept key xs zs"
  by (simp add: ties_kept_def)

lemma ties_kept_append:
  "ties_kept key xs xs' \<Longrightarrow> ties_kept key ys ys' \<Longrightarrow> ties_kept key (xs @ ys) (xs' @ ys')"
  by (simp add: ties_kept_def)

lemma ties_kept_set:
  assumes "ties_kept key xs ys"
  shows "set xs = set ys"
proof -
  have "x \<in> set xs \<longleftrightarrow> x \<in> set ys" for x
  proof -
    have "x \<in> set xs \<longleftrightarrow> x \<in> set (filter (\<lambda>y. key y = key x) xs)" by simp
    also have "\<dots> \<longleftrightarrow> x \<in> set (filter (\<lambda>y. key y = key x) ys)"
      using assms by (simp add: ties_kept_def)
    also have "\<dots> \<longleftrightarrow> x \<in> set ys" by simp
    finally show ?thesis .
  qed
  then show ?thesis by blast
qed

lemma ties_kept_mset:
  assumes "ties_kept key xs ys"
  shows "mset xs = mset ys"
proof (rule multiset_eqI)
  fix x
  have "count (mset xs) x = count (mset (filter (\<lambda>y. key y = key x) xs)) x" by simp
  also have "\<dots> = count (mset (filter (\<lambda>y. key y = key x) ys)) x"
    using assms by (simp add: ties_kept_def)
  also have "\<dots> = count (mset ys) x" by simp
  finally show "count (mset xs) x = count (mset ys) x" .
qed

lemma run_extent_not_descending:
  assumes "orders_by cmp key S"
  shows "set (prev # rest) \<subseteq> S \<Longrightarrow>
         desc_by key (prev # take (run_extent cmp False prev rest) rest)"
proof (induction rest arbitrary: prev)
  case Nil
  show ?case by (simp add: desc_by_def)
next
  case (Cons x rest)
  from Cons.prems assms have c: "(cmp x prev < 0) = (key prev < key x)"
    by (simp add: orders_by_def)
  show ?case
  proof (cases "cmp x prev < 0")
    case True
    then show ?thesis by (simp add: desc_by_def)
  next
    case False
    with c have le: "key x \<le> key prev" by simp
    from Cons.prems have "set (x # rest) \<subseteq> S" by simp
    from Cons.IH [OF this]
    have "desc_by key (x # take (run_extent cmp False x rest) rest)" .
    with le False show ?thesis by (auto simp: desc_by_def)
  qed
qed

lemma run_extent_descending:
  assumes "orders_by cmp key S"
  shows "set (prev # rest) \<subseteq> S \<Longrightarrow>
         sorted_wrt (\<lambda>x y. key x < key y) (prev # take (run_extent cmp True prev rest) rest)"
proof (induction rest arbitrary: prev)
  case Nil
  show ?case by simp
next
  case (Cons x rest)
  from Cons.prems assms have c: "(cmp x prev < 0) = (key prev < key x)"
    by (simp add: orders_by_def)
  show ?case
  proof (cases "cmp x prev < 0")
    case False
    then show ?thesis by simp
  next
    case True
    with c have lt: "key prev < key x" by simp
    from Cons.prems have "set (x # rest) \<subseteq> S" by simp
    from Cons.IH [OF this]
    have "sorted_wrt (\<lambda>x y. key x < key y) (x # take (run_extent cmp True x rest) rest)" .
    with lt True show ?thesis by auto
  qed
qed

lemma filter_key_strict:
  "sorted_wrt (\<lambda>x y. key x < (key y :: int)) xs \<Longrightarrow> length (filter (\<lambda>x. key x = k) xs) \<le> 1"
proof (induction xs)
  case Nil
  show ?case by simp
next
  case (Cons x xs)
  show ?case
  proof (cases "key x = k")
    case True
    with Cons.prems have "\<forall>y\<in>set xs. key y \<noteq> k" by auto
    then have "filter (\<lambda>x. key x = k) xs = []" by (simp add: filter_empty_conv)
    with True show ?thesis by simp
  next
    case False
    with Cons show ?thesis by simp
  qed
qed

lemma rev_strict_run:
  assumes "sorted_wrt (\<lambda>x y. key x < (key y :: int)) xs"
  shows "desc_by key (rev xs)" and "ties_kept key (rev xs) xs"
proof -
  have "sorted_wrt (\<lambda>x y. key x \<le> key y) xs"
    using assms by (rule sorted_wrt_mono_rel [rotated]) simp
  then show "desc_by key (rev xs)" by (simp add: desc_by_def sorted_wrt_rev)
  have "filter (\<lambda>x. key x = k) (rev xs) = filter (\<lambda>x. key x = k) xs" for k
  proof -
    have "length (filter (\<lambda>x. key x = k) xs) \<le> 1" using assms by (rule filter_key_strict)
    then have "rev (filter (\<lambda>x. key x = k) xs) = filter (\<lambda>x. key x = k) xs"
      by (cases "filter (\<lambda>x. key x = k) xs") auto
    then show ?thesis by (simp add: rev_filter)
  qed
  then show "ties_kept key (rev xs) xs" by (simp add: ties_kept_def)
qed

lemma count_and_make_run_correct:
  assumes o: "orders_by cmp key S" and sub: "set a \<subseteq> S"
    and r: "count_and_make_run cmp a = (a1, n)"
  shows "desc_by key (take n a1) \<and> ties_kept key a1 a"
proof (cases a)
  case Nil
  with r show ?thesis by (simp add: count_and_make_run_def desc_by_def ties_kept_def)
next
  case (Cons x xs)
  show ?thesis
  proof (cases xs)
    case Nil
    with Cons r show ?thesis by (auto simp: count_and_make_run_def desc_by_def ties_kept_def)
  next
    case c2: (Cons y ys)
    from sub Cons c2 have xy: "x \<in> S" "y \<in> S" "set (y # ys) \<subseteq> S" by auto
    with o have c: "(cmp y x < 0) = (key x < key y)" by (simp add: orders_by_def)
    show ?thesis
    proof (cases "cmp y x < 0")
      case True
      define m where "m = run_extent cmp True y ys"
      from True r Cons c2 have n: "n = 2 + m" and a1: "a1 = rev (take n a) @ drop n a"
        by (auto simp: count_and_make_run_def Let_def m_def)
      have tk: "take n a = x # y # take m ys" using n Cons c2 by simp
      have "sorted_wrt (\<lambda>x y. key x < key y) (y # take m ys)"
        unfolding m_def using o xy(3) by (rule run_extent_descending)
      with True c have s: "sorted_wrt (\<lambda>x y. key x < key y) (take n a)"
        unfolding tk by auto
      have "m \<le> length ys" unfolding m_def by (rule run_extent_le)
      then have "n \<le> length a" using n Cons c2 by simp
      then have t1: "take n a1 = rev (take n a)" using a1 by simp
      have "ties_kept key (rev (take n a) @ drop n a) (take n a @ drop n a)"
        by (rule ties_kept_append [OF rev_strict_run(2) [OF s] ties_kept_refl])
      then have t: "ties_kept key a1 a" unfolding a1 by simp
      have d: "desc_by key (take n a1)" unfolding t1 by (rule rev_strict_run(1) [OF s])
      from d t show ?thesis ..
    next
      case False
      define m where "m = run_extent cmp False y ys"
      from False r Cons c2 have n: "n = 2 + m" and a1: "a1 = a"
        by (auto simp: count_and_make_run_def Let_def m_def)
      have tk: "take n a = x # y # take m ys" using n Cons c2 by simp
      have "desc_by key (y # take m ys)"
        unfolding m_def using o xy(3) by (rule run_extent_not_descending)
      with False c have "desc_by key (take n a)"
        unfolding tk by (auto simp: desc_by_def)
      with a1 show ?thesis by (simp add: ties_kept_refl)
    qed
  qed
qed

lemma find_insertion_point_correct:
  shows "orders_by cmp key S \<Longrightarrow> pivot \<in> S \<Longrightarrow>
         set (take start a) \<subseteq> S \<Longrightarrow> desc_by key (take start a) \<Longrightarrow> start \<le> length a \<Longrightarrow>
         left \<le> right \<Longrightarrow> right \<le> start \<Longrightarrow>
         (\<forall>i<left. key pivot \<le> key (a ! i)) \<Longrightarrow>
         (\<forall>i. right \<le> i \<and> i < start \<longrightarrow> key (a ! i) < key pivot) \<Longrightarrow>
         (\<forall>i<find_insertion_point cmp pivot a left right. key pivot \<le> key (a ! i)) \<and>
         (\<forall>i. find_insertion_point cmp pivot a left right \<le> i \<and> i < start \<longrightarrow>
              key (a ! i) < key pivot)"
proof (induction cmp pivot a left right rule: find_insertion_point.induct)
  case (1 cmp pivot a left right)
  note o = "1.prems"(1) and pv = "1.prems"(2)
    and sub = "1.prems"(3) and d = "1.prems"(4) and len = "1.prems"(5)
    and lr = "1.prems"(6) and rs = "1.prems"(7) and lo = "1.prems"(8) and hi = "1.prems"(9)
  show ?case
  proof (cases "left < right")
    case False
    then have "find_insertion_point cmp pivot a left right = left"
      by (subst find_insertion_point.simps) simp
    moreover from False lr have "left = right" by simp
    ultimately show ?thesis using lo hi by simp
  next
    case True
    define mid where "mid = left + (right - left) div 2"
    from True have m: "left \<le> mid" "mid < right" by (auto simp: mid_def)
    with rs len have ms: "mid < start" "mid < length (take start a)" by simp_all
    have nth: "\<And>i. i < start \<Longrightarrow> take start a ! i = a ! i" by simp
    from ms have "take start a ! mid \<in> set (take start a)" by (intro nth_mem)
    with sub ms have "a ! mid \<in> S" by auto
    with o pv have c: "(cmp pivot (a ! mid) < 0) = (key (a ! mid) < key pivot)"
      by (simp add: orders_by_def)
    have mono: "key (a ! j) \<le> key (a ! i)" if "i < j" "j < start" for i j
    proof -
      from that len have "j < length (take start a)" by simp
      from sorted_wrt_nth_less [OF d [unfolded desc_by_def] that(1) this]
      show ?thesis using that by simp
    qed
    show ?thesis
    proof (cases "cmp pivot (a ! mid) < 0")
      case lt: True
      have eq: "find_insertion_point cmp pivot a left right =
                find_insertion_point cmp pivot a left mid"
        using True lt by (subst find_insertion_point.simps) (simp add: mid_def Let_def)
      have hi': "\<forall>i. mid \<le> i \<and> i < start \<longrightarrow> key (a ! i) < key pivot"
      proof (intro allI impI)
        fix i assume i: "mid \<le> i \<and> i < start"
        show "key (a ! i) < key pivot"
        proof (cases "i = mid")
          case True
          with lt c show ?thesis by simp
        next
          case False
          with i have "mid < i" "i < start" by simp_all
          from mono [OF this] lt c show ?thesis by simp
        qed
      qed
      from "1.IH"(1) [OF True mid_def lt o pv sub d len m(1) _ lo hi'] ms
      show ?thesis unfolding eq by simp
    next
      case ge: False
      have eq: "find_insertion_point cmp pivot a left right =
                find_insertion_point cmp pivot a (mid + 1) right"
        using True ge by (subst find_insertion_point.simps) (simp add: mid_def Let_def)
      have lo': "\<forall>i<mid + 1. key pivot \<le> key (a ! i)"
      proof (intro allI impI)
        fix i assume i: "i < mid + 1"
        show "key pivot \<le> key (a ! i)"
        proof (cases "i = mid")
          case True
          with ge c show ?thesis by simp
        next
          case False
          with i have "i < mid" by simp
          from mono [OF this ms(1)] ge c show ?thesis by simp
        qed
      qed
      from m have "mid + 1 \<le> right" by simp
      from "1.IH"(2) [OF True mid_def ge o pv sub d len this rs lo' hi]
      show ?thesis unfolding eq by simp
    qed
  qed
qed

lemma insert_pivot_correct:
  fixes key :: "'a \<Rightarrow> int"
  assumes st: "start < length a" and ls: "left \<le> start"
    and d: "desc_by key (take start a)"
    and lo: "\<forall>i<left. key (a ! start) \<le> key (a ! i)"
    and hi: "\<forall>i. left \<le> i \<and> i < start \<longrightarrow> key (a ! i) < key (a ! start)"
    and a': "a' = take left a @ (a ! start) # take (start - left) (drop left a) @ drop (Suc start) a"
  shows "desc_by key (take (Suc start) a')" and "ties_kept key a' a" and "length a' = length a"
proof -
  define P where "P = take left a"
  define Q where "Q = take (start - left) (drop left a)"
  define R where "R = drop (Suc start) a"
  define pivot where "pivot = a ! start"
  have lP: "length P = left" and lQ: "length Q = start - left"
    using st ls by (simp_all add: P_def Q_def)
  have PQ: "take start a = P @ Q"
    using take_add [of left "start - left" a] ls by (simp add: P_def Q_def)
  have a_eq: "a = P @ Q @ pivot # R"
    using id_take_nth_drop [OF st] PQ by (simp add: pivot_def R_def)
  have a'_eq: "a' = P @ pivot # Q @ R"
    by (simp add: a' P_def Q_def R_def pivot_def)
  have inP: "key pivot \<le> key x" if "x \<in> set P" for x
  proof -
    from that obtain i where i: "i < length P" "P ! i = x" by (auto simp: in_set_conv_nth)
    with lP have "P ! i = a ! i" by (simp add: P_def)
    with i lo lP show ?thesis by (auto simp: pivot_def)
  qed
  have inQ: "key x < key pivot" if "x \<in> set Q" for x
  proof -
    from that obtain j where j: "j < length Q" "Q ! j = x" by (auto simp: in_set_conv_nth)
    with lQ st ls have "Q ! j = a ! (left + j)" by (simp add: Q_def)
    moreover from j lQ have "left \<le> left + j \<and> left + j < start" by simp
    ultimately show ?thesis using hi j by (auto simp: pivot_def)
  qed
  have "Suc start - left = Suc (start - left)" using ls by simp
  then have tk: "take (Suc start) a' = P @ pivot # Q"
    using lP lQ by (simp add: a'_eq)
  from d have "sorted_wrt (\<lambda>x y. key y \<le> key x) (P @ Q)" by (simp add: desc_by_def PQ)
  then have "sorted_wrt (\<lambda>x y. key y \<le> key x) (P @ pivot # Q)"
    using inP inQ by (fastforce simp: sorted_wrt_append)
  then show "desc_by key (take (Suc start) a')" by (simp add: tk desc_by_def)
  have "filter (\<lambda>x. key x = k) a' = filter (\<lambda>x. key x = k) a" for k
  proof (cases "key pivot = k")
    case True
    have "\<forall>x\<in>set Q. key x \<noteq> k"
    proof
      fix x assume "x \<in> set Q"
      from inQ [OF this] True show "key x \<noteq> k" by simp
    qed
    then have "filter (\<lambda>x. key x = k) Q = []" by (simp add: filter_empty_conv)
    then show ?thesis by (subst a_eq, simp add: a'_eq)
  next
    case False
    then show ?thesis by (subst a_eq, simp add: a'_eq)
  qed
  then show "ties_kept key a' a" by (simp add: ties_kept_def)
  show "length a' = length a" by (subst a_eq, simp add: a'_eq)
qed

lemma binary_insertion_loop_correct:
  shows "orders_by cmp key S \<Longrightarrow>
         set a \<subseteq> S \<Longrightarrow> high \<le> length a \<Longrightarrow> desc_by key (take start a) \<Longrightarrow>
         desc_by key (take high (binary_insertion_loop cmp a start high)) \<and>
         ties_kept key (binary_insertion_loop cmp a start high) a"
proof (induction cmp a start high rule: binary_insertion_loop.induct)
  case (1 cmp a start high)
  note o = "1.prems"(1) and sub = "1.prems"(2) and hl = "1.prems"(3) and d = "1.prems"(4)
  show ?case
  proof (cases "start < high")
    case False
    then have eq: "binary_insertion_loop cmp a start high = a"
      by (subst binary_insertion_loop.simps) simp
    from False have "take high a = take high (take start a)" by (simp add: min_def)
    with d have "desc_by key (take high a)"
      by (metis desc_by_def sorted_wrt_take)
    then show ?thesis by (simp add: eq ties_kept_refl)
  next
    case True
    define pivot where "pivot = a ! start"
    define left where "left = find_insertion_point cmp pivot a 0 start"
    define a' where
      "a' = take left a @ pivot # take (start - left) (drop left a) @ drop (Suc start) a"
    have eq: "binary_insertion_loop cmp a start high =
        binary_insertion_loop cmp a' (Suc start) high"
      using True by (subst binary_insertion_loop.simps) (simp add: a'_def left_def pivot_def Let_def)
    from True hl have st: "start < length a" by simp
    then have pS: "pivot \<in> S" using sub by (auto simp: pivot_def)
    have subt: "set (take start a) \<subseteq> S" using sub set_take_subset [of start a] by blast
    have ls: "left \<le> start"
      using find_insertion_point_bounds [of 0 start cmp pivot a] by (simp add: left_def)
    have fp: "(\<forall>i<left. key pivot \<le> key (a ! i)) \<and>
              (\<forall>i. left \<le> i \<and> i < start \<longrightarrow> key (a ! i) < key pivot)"
      unfolding left_def
      by (rule find_insertion_point_correct [OF o pS subt d]) (use st in simp_all)
    have a'2: "a' = take left a @ (a ! start) # take (start - left) (drop left a) @ drop (Suc start) a"
      by (simp add: a'_def pivot_def)
    note step = insert_pivot_correct [OF st ls d _ _ a'2]
    from fp have lo: "\<forall>i<left. key (a ! start) \<le> key (a ! i)"
      and hi: "\<forall>i. left \<le> i \<and> i < start \<longrightarrow> key (a ! i) < key (a ! start)"
      by (simp_all add: pivot_def)
    note s1 = step(1) [OF lo hi] and s2 = step(2) [OF lo hi] and s3 = step(3) [OF lo hi]
    from ties_kept_set [OF s2] sub have sub': "set a' \<subseteq> S" by simp
    from hl s3 have hl': "high \<le> length a'" by simp
    from "1.IH" [OF True pivot_def left_def o sub' [unfolded a'_def] hl' [unfolded a'_def] s1 [unfolded a'_def]]
    have "desc_by key (take high (binary_insertion_loop cmp a' (Suc start) high)) \<and>
          ties_kept key (binary_insertion_loop cmp a' (Suc start) high) a'"
      by (simp add: a'_def)
    with s2 show ?thesis unfolding eq by (auto intro: ties_kept_trans)
  qed
qed

lemma next_run_correct:
  assumes o: "orders_by cmp key S" and sub: "set a \<subseteq> S"
    and r: "next_run cmp minRunLength a = (run, rest)"
  shows "desc_by key run" and "ties_kept key (run @ rest) a"
proof -
  obtain a1 n where c: "count_and_make_run cmp a = (a1, n)"
    by (cases "count_and_make_run cmp a")
  note cl = count_and_make_run_length [OF c]
  from count_and_make_run_correct [OF o sub c]
  have d1: "desc_by key (take n a1)" and t1: "ties_kept key a1 a" by simp_all
  have "desc_by key run \<and> ties_kept key (run @ rest) a"
  proof (cases "n < minRunLength")
    case False
    with r c have "run = take n a1" "rest = drop n a1" by (simp_all add: next_run_def)
    with d1 t1 show ?thesis by simp
  next
    case True
    define forced where "forced = min minRunLength (length a)"
    define start where "start = (if n = 0 then n + 1 else n)"
    define a2 where "a2 = binary_insertion_loop cmp a1 start forced"
    from r c True have rr: "run = take forced a2" "rest = drop forced a2"
      by (simp_all add: next_run_def Let_def a2_def forced_def start_def
          binary_insertion_sort_def)
    from ties_kept_set [OF t1] sub have sub1: "set a1 \<subseteq> S" by simp
    have fl: "forced \<le> length a1" using cl by (simp add: forced_def)
    have ds: "desc_by key (take start a1)"
    proof (cases "n = 0")
      case False
      with d1 show ?thesis by (simp add: start_def)
    next
      case True
      with cl have "a1 = []" by auto
      then show ?thesis by (simp add: desc_by_def)
    qed
    from binary_insertion_loop_correct [OF o sub1 fl ds]
    have "desc_by key (take forced a2)" "ties_kept key a2 a1" by (simp_all add: a2_def)
    with rr t1 show ?thesis by (auto intro: ties_kept_trans)
  qed
  then show "desc_by key run" and "ties_kept key (run @ rest) a" by simp_all
qed

lemma set_merge_runs: "set (merge_runs cmp as bs) = set as \<union> set bs"
  by (induction cmp as bs rule: merge_runs.induct) auto

lemma filter_key_swap:
  "\<forall>x\<in>set xs. key x \<noteq> key b \<Longrightarrow>
   filter (\<lambda>x. key x = k) (b # xs @ ys) = filter (\<lambda>x. key x = k) (xs @ b # ys)"
  by (induction xs) auto

lemma merge_runs_correct:
  "orders_by cmp key S \<Longrightarrow> set as \<subseteq> S \<Longrightarrow> set bs \<subseteq> S \<Longrightarrow>
   desc_by key as \<Longrightarrow> desc_by key bs \<Longrightarrow>
   desc_by key (merge_runs cmp as bs) \<and> ties_kept key (merge_runs cmp as bs) (as @ bs)"
proof (induction cmp as bs rule: merge_runs.induct)
  case (1 cmp bs)
  then show ?case by (simp add: ties_kept_refl)
next
  case (2 cmp v va)
  then show ?case by (simp add: ties_kept_refl)
next
  case (3 cmp a as b bs)
  note o = "3.prems"(1) and sa = "3.prems"(2) and sb = "3.prems"(3)
    and da = "3.prems"(4) and db = "3.prems"(5)
  from o sa sb have c: "(cmp b a < 0) = (key a < key b)" by (simp add: orders_by_def)
  from da have a_top: "\<forall>x\<in>set as. key x \<le> key a" and das: "desc_by key as"
    by (simp_all add: desc_by_def)
  from db have b_top: "\<forall>y\<in>set bs. key y \<le> key b" and dbs: "desc_by key bs"
    by (simp_all add: desc_by_def)
  show ?case
  proof (cases "cmp b a < 0")
    case True
    from sb have sbs: "set bs \<subseteq> S" by simp
    from "3.IH"(1) [OF True o sa sbs da dbs]
    have d: "desc_by key (merge_runs cmp (a # as) bs)"
      and t: "ties_kept key (merge_runs cmp (a # as) bs) ((a # as) @ bs)" by simp_all
    have "\<forall>x\<in>set (merge_runs cmp (a # as) bs). key x \<le> key b"
    proof
      fix x assume "x \<in> set (merge_runs cmp (a # as) bs)"
      then have "x = a \<or> x \<in> set as \<or> x \<in> set bs" by (auto simp: set_merge_runs)
      then show "key x \<le> key b" using a_top b_top True c by auto
    qed
    with d True have "desc_by key (merge_runs cmp (a # as) (b # bs))"
      by (simp add: desc_by_def)
    moreover have "filter (\<lambda>x. key x = k) (merge_runs cmp (a # as) (b # bs)) =
                   filter (\<lambda>x. key x = k) ((a # as) @ b # bs)" for k
    proof -
      have ne: "\<forall>x\<in>set (a # as). key x \<noteq> key b"
      proof
        fix x assume "x \<in> set (a # as)"
        with a_top have "key x \<le> key a" by auto
        with True c show "key x \<noteq> key b" by simp
      qed
      have "filter (\<lambda>x. key x = k) (merge_runs cmp (a # as) (b # bs)) =
            filter (\<lambda>x. key x = k) [b] @ filter (\<lambda>x. key x = k) (merge_runs cmp (a # as) bs)"
        using True by simp
      also have "\<dots> = filter (\<lambda>x. key x = k) [b] @ filter (\<lambda>x. key x = k) ((a # as) @ bs)"
        using t by (simp only: ties_kept_def)
      also have "\<dots> = filter (\<lambda>x. key x = k) (b # (a # as) @ bs)"
        by simp
      also have "\<dots> = filter (\<lambda>x. key x = k) ((a # as) @ b # bs)"
        by (rule filter_key_swap [OF ne])
      finally show ?thesis .
    qed
    ultimately show ?thesis by (simp add: ties_kept_def)
  next
    case False
    from sa have sas: "set as \<subseteq> S" by simp
    from "3.IH"(2) [OF False o sas sb das db]
    have d: "desc_by key (merge_runs cmp as (b # bs))"
      and t: "ties_kept key (merge_runs cmp as (b # bs)) (as @ b # bs)" by simp_all
    have "\<forall>x\<in>set (merge_runs cmp as (b # bs)). key x \<le> key a"
    proof
      fix x assume "x \<in> set (merge_runs cmp as (b # bs))"
      then have "x \<in> set as \<or> x = b \<or> x \<in> set bs" by (auto simp: set_merge_runs)
      then show "key x \<le> key a" using a_top b_top False c by auto
    qed
    with d False have "desc_by key (merge_runs cmp (a # as) (b # bs))"
      by (simp add: desc_by_def)
    moreover from t False have "ties_kept key (merge_runs cmp (a # as) (b # bs)) ((a # as) @ b # bs)"
      by (simp add: ties_kept_def)
    ultimately show ?thesis by simp
  qed
qed

lemma merge_at_correct:
  assumes o: "orders_by cmp key S" and ok: "runs_ok key S runs" and i: "i + 2 \<le> length runs"
  shows "runs_ok key S (merge_at cmp runs i)"
    and "ties_kept key (concat (merge_at cmp runs i)) (concat runs)"
proof -
  define A where "A = runs ! i"
  define B where "B = runs ! (i + 1)"
  from i have "drop i runs = A # drop (Suc i) runs"
    by (simp add: A_def Cons_nth_drop_Suc)
  moreover from i have "drop (Suc i) runs = B # drop (i + 2) runs"
    by (simp add: B_def Cons_nth_drop_Suc)
  ultimately have "take i runs @ A # B # drop (i + 2) runs = take i runs @ drop i runs"
    by simp
  then have split: "runs = take i runs @ A # B # drop (i + 2) runs" by simp
  have m: "merge_at cmp runs i = take i runs @ merge_runs cmp A B # drop (i + 2) runs"
    by (simp add: merge_at_def A_def B_def)
  from i have "A \<in> set runs" "B \<in> set runs" by (simp_all add: A_def B_def)
  with ok have A: "desc_by key A" "set A \<subseteq> S" and B: "desc_by key B" "set B \<subseteq> S"
    by (simp_all add: runs_ok_def)
  from merge_runs_correct [OF o A(2) B(2) A(1) B(1)]
  have d: "desc_by key (merge_runs cmp A B)"
    and t: "ties_kept key (merge_runs cmp A B) (A @ B)" by simp_all
  have sm: "set (merge_runs cmp A B) \<subseteq> S" using A B by (simp add: set_merge_runs)
  have "\<forall>r\<in>set (take i runs) \<union> set (drop (i + 2) runs). desc_by key r \<and> set r \<subseteq> S"
    using ok by (auto simp: runs_ok_def dest: in_set_takeD in_set_dropD)
  with d sm show "runs_ok key S (merge_at cmp runs i)"
    by (auto simp: runs_ok_def m)
  have "ties_kept key (concat (take i runs) @ merge_runs cmp A B @ concat (drop (i + 2) runs))
          (concat (take i runs) @ (A @ B) @ concat (drop (i + 2) runs))"
    by (intro ties_kept_append ties_kept_refl t)
  moreover have "concat runs = concat (take i runs) @ (A @ B) @ concat (drop (i + 2) runs)"
    by (subst split) simp
  ultimately show "ties_kept key (concat (merge_at cmp runs i)) (concat runs)"
    by (simp add: m)
qed

lemma merge_collapse_correct:
  "orders_by cmp key S \<Longrightarrow> runs_ok key S runs \<Longrightarrow>
   runs_ok key S (merge_collapse cmp runs) \<and>
   ties_kept key (concat (merge_collapse cmp runs)) (concat runs)"
proof (induction cmp runs rule: merge_collapse.induct)
  case (1 cmp runs)
  note o = "1.prems"(1) and ok = "1.prems"(2)
  define n where "n = length runs - 2"
  show ?case
  proof (cases "length runs > 1")
    case False
    then have "merge_collapse cmp runs = runs" by (subst merge_collapse.simps) simp
    with ok show ?thesis by (simp add: ties_kept_refl)
  next
    case True
    then have n2: "n + 2 \<le> length runs" by (simp add: n_def)
    show ?thesis
    proof (cases "\<not> run_invariant_established runs (n + 1) \<or>
                  \<not> run_invariant_established runs n")
      case inv: True
      define i where
        "i = (if length (runs ! (n - 1)) < length (runs ! (n + 1)) then n - 1 else n)"
      have eq: "merge_collapse cmp runs = merge_collapse cmp (merge_at cmp runs i)"
        using True inv by (subst merge_collapse.simps) (simp add: n_def i_def Let_def)
      have "i \<le> n" by (simp add: i_def)
      with n2 have i2: "i + 2 \<le> length runs" by simp
      note m = merge_at_correct [OF o ok i2]
      from "1.IH"(1) [OF True n_def inv o] m(1)
      have "runs_ok key S (merge_collapse cmp (merge_at cmp runs i)) \<and>
            ties_kept key (concat (merge_collapse cmp (merge_at cmp runs i)))
              (concat (merge_at cmp runs i))"
        by (simp add: i_def)
      with m(2) show ?thesis unfolding eq by (auto intro: ties_kept_trans)
    next
      case inv: False
      show ?thesis
      proof (cases "length (runs ! n) \<le> length (runs ! (n + 1))")
        case le: True
        have eq: "merge_collapse cmp runs = merge_collapse cmp (merge_at cmp runs n)"
          using True inv le by (subst merge_collapse.simps) (simp add: n_def Let_def)
        note m = merge_at_correct [OF o ok n2]
        from "1.IH"(2) [OF True n_def inv le o m(1)] m(2)
        show ?thesis unfolding eq by (auto intro: ties_kept_trans)
      next
        case gt: False
        have "merge_collapse cmp runs = runs"
          using True inv gt by (subst merge_collapse.simps) (simp add: n_def Let_def)
        with ok show ?thesis by (simp add: ties_kept_refl)
      qed
    qed
  qed
qed

lemma merge_force_collapse_correct:
  "orders_by cmp key S \<Longrightarrow> runs_ok key S runs \<Longrightarrow>
   runs_ok key S (merge_force_collapse cmp runs) \<and>
   ties_kept key (concat (merge_force_collapse cmp runs)) (concat runs) \<and>
   length (merge_force_collapse cmp runs) \<le> 1"
proof (induction cmp runs rule: merge_force_collapse.induct)
  case (1 cmp runs)
  note o = "1.prems"(1) and ok = "1.prems"(2)
  define n where "n = length runs - 2"
  show ?case
  proof (cases "length runs > 1")
    case False
    then have "merge_force_collapse cmp runs = runs"
      by (subst merge_force_collapse.simps) simp
    with ok False show ?thesis by (simp add: ties_kept_refl)
  next
    case True
    then have n2: "n + 2 \<le> length runs" by (simp add: n_def)
    define i where
      "i = (if n > 0 \<and> length (runs ! (n - 1)) < length (runs ! (n + 1)) then n - 1 else n)"
    have eq: "merge_force_collapse cmp runs = merge_force_collapse cmp (merge_at cmp runs i)"
      using True by (subst merge_force_collapse.simps) (simp add: n_def i_def Let_def)
    have "i \<le> n" by (simp add: i_def)
    with n2 have i2: "i + 2 \<le> length runs" by simp
    note m = merge_at_correct [OF o ok i2]
    from "1.IH" [OF True n_def o] m(1)
    have "runs_ok key S (merge_force_collapse cmp (merge_at cmp runs i)) \<and>
          ties_kept key (concat (merge_force_collapse cmp (merge_at cmp runs i)))
            (concat (merge_at cmp runs i)) \<and>
          length (merge_force_collapse cmp (merge_at cmp runs i)) \<le> 1"
      by (simp add: i_def)
    with m(2) show ?thesis unfolding eq by (auto intro: ties_kept_trans)
  qed
qed

lemma tim_sort_loop_correct:
  "orders_by cmp key S \<Longrightarrow> runs_ok key S runs \<Longrightarrow> set a \<subseteq> S \<Longrightarrow>
   runs_ok key S (tim_sort_loop cmp minRunLength runs a) \<and>
   ties_kept key (concat (tim_sort_loop cmp minRunLength runs a)) (concat runs @ a)"
proof (induction cmp minRunLength runs a rule: tim_sort_loop.induct)
  case (1 cmp minRunLength runs a)
  note o = "1.prems"(1) and ok = "1.prems"(2) and sub = "1.prems"(3)
  show ?case
  proof (cases "a = []")
    case True
    then have "tim_sort_loop cmp minRunLength runs a = runs"
      by (subst tim_sort_loop.simps) simp
    with ok True show ?thesis by (simp add: ties_kept_refl)
  next
    case False
    obtain run rest where nr: "next_run cmp minRunLength a = (run, rest)"
      by (cases "next_run cmp minRunLength a")
    have eq: "tim_sort_loop cmp minRunLength runs a =
        tim_sort_loop cmp minRunLength (merge_collapse cmp (runs @ [run])) rest"
      using False nr by (subst tim_sort_loop.simps) simp
    note n = next_run_correct [OF o sub nr]
    from ties_kept_set [OF n(2)] sub have srr: "set run \<subseteq> S" "set rest \<subseteq> S" by auto
    with ok n(1) have ok1: "runs_ok key S (runs @ [run])" by (simp add: runs_ok_def)
    note mc = merge_collapse_correct [OF o ok1]
    from mc have ok2: "runs_ok key S (merge_collapse cmp (runs @ [run]))"
      and t2: "ties_kept key (concat (merge_collapse cmp (runs @ [run]))) (concat (runs @ [run]))"
      by simp_all
    from "1.IH" [OF False nr [symmetric] o ok2 srr(2)]
    have r: "runs_ok key S (tim_sort_loop cmp minRunLength (merge_collapse cmp (runs @ [run])) rest)"
      and t3: "ties_kept key
          (concat (tim_sort_loop cmp minRunLength (merge_collapse cmp (runs @ [run])) rest))
          (concat (merge_collapse cmp (runs @ [run])) @ rest)" by simp_all
    have "ties_kept key (concat (merge_collapse cmp (runs @ [run])) @ rest)
            (concat (runs @ [run]) @ rest)"
      by (rule ties_kept_append [OF t2 ties_kept_refl])
    also have "concat (runs @ [run]) @ rest = concat runs @ (run @ rest)" by simp
    finally have "ties_kept key (concat (merge_collapse cmp (runs @ [run])) @ rest)
            (concat runs @ (run @ rest))" .
    moreover have "ties_kept key (concat runs @ (run @ rest)) (concat runs @ a)"
      by (rule ties_kept_append [OF ties_kept_refl n(2)])
    ultimately have "ties_kept key
          (concat (tim_sort_loop cmp minRunLength (merge_collapse cmp (runs @ [run])) rest))
          (concat runs @ a)"
      using t3 by (blast intro: ties_kept_trans)
    with r show ?thesis unfolding eq by simp
  qed
qed

lemma array_sort_correct:
  assumes o: "orders_by cmp key S" and sub: "set a \<subseteq> S"
  shows "desc_by key (array_sort cmp a)" and "ties_kept key (array_sort cmp a) a"
proof -
  have "desc_by key (array_sort cmp a) \<and> ties_kept key (array_sort cmp a) a"
  proof (cases "length a < 2")
    case True
    then have "length a \<le> 1" by simp
    then have "sorted_wrt (\<lambda>x y. key y \<le> key x) a" by (rule sorted_wrt01)
    with True show ?thesis by (simp add: array_sort_def desc_by_def ties_kept_refl)
  next
    case False
    define runs where "runs = tim_sort_loop cmp (compute_min_run_length (length a)) [] a"
    define final where "final = merge_force_collapse cmp runs"
    have eq: "array_sort cmp a = concat final"
      using False by (simp add: array_sort_def final_def runs_def)
    have "runs_ok key S []" by (simp add: runs_ok_def)
    from tim_sort_loop_correct [OF o this sub]
    have ok: "runs_ok key S runs" and t: "ties_kept key (concat runs) a"
      by (simp_all add: runs_def)
    from merge_force_collapse_correct [OF o ok]
    have okf: "runs_ok key S final" and tf: "ties_kept key (concat final) (concat runs)"
      and lf: "length final \<le> 1" by (simp_all add: final_def)
    have "desc_by key (concat final)"
    proof (cases final)
      case Nil
      then show ?thesis by (simp add: desc_by_def)
    next
      case (Cons r rs)
      with lf have "final = [r]" by simp
      with okf show ?thesis by (simp add: runs_ok_def)
    qed
    moreover from tf t have "ties_kept key (concat final) a" by (rule ties_kept_trans)
    ultimately show ?thesis by (simp add: eq)
  qed
  then show "desc_by key (array_sort cmp a)" and "ties_kept key (array_sort cmp a) a"
    by simp_all
qed

subsection \<open>All posts\<close>

lemma compare_posts_orders: "orders_by compare_posts time_of {p. date p \<noteq> None}"
  by (auto simp: orders_by_def compare_posts_def date_gt_def time_of_def)

lemma getPostFromSlug_valid_date: "getPostFromSlug e s = Inr p \<Longrightarrow> date p \<noteq> None"
  by (auto simp: getPostFromSlug_def getFriendlyDate_def toISOString_def
      split: sum.splits prod.splits jsval.splits option.splits)

lemma getPostFromSlug_slug: "getPostFromSlug e s = Inr p \<Longrightarrow> slug p = s"
  by (auto simp: getPostFromSlug_def split: sum.splits prod.splits jsval.splits)

lemma fetch_posts_Inr:
  "fetch_posts e filenames acc = Inr posts \<Longrightarrow>
   \<exists>fetched. posts = acc @ fetched \<and>
     list_all2 (\<lambda>f p. getPostFromFilename e f = Inr p) filenames fetched"
proof (induction filenames arbitrary: acc)
  case Nil
  then show ?case by simp
next
  case (Cons f fs)
  then obtain p where p: "getPostFromFilename e f = Inr p"
    and r: "fetch_posts e fs (acc @ [p]) = Inr posts"
    by (auto split: sum.splits)
  from Cons.IH [OF r] obtain fetched where
    "posts = (acc @ [p]) @ fetched" "list_all2 (\<lambda>f p. getPostFromFilename e f = Inr p) fs fetched"
    by blast
  with p have "posts = acc @ (p # fetched) \<and>
      list_all2 (\<lambda>f p. getPostFromFilename e f = Inr p) (f # fs) (p # fetched)" by simp
  then show ?case by blast
qed

lemma fetch_posts_all:
  "list_all2 (\<lambda>f p. getPostFromFilename e f = Inr p) filenames fetched \<Longrightarrow>
   fetch_posts e filenames acc = Inr (acc @ fetched)"
  by (induction filenames fetched arbitrary: acc rule: list_all2_induct) simp_all

lemma fetch_posts_first_failure:
  "\<forall>g\<in>set pre. \<exists>p. getPostFromFilename e g = Inr p \<Longrightarrow>
   getPostFromFilename e f = Inl err \<Longrightarrow>
   fetch_posts e (pre @ f # rest) acc = Inl err"
  by (induction pre arbitrary: acc) auto

lemma fetch_posts_some_failure:
  "f \<in> set filenames \<Longrightarrow> getPostFromFilename e f = Inl err \<Longrightarrow>
   \<exists>f'\<in>set filenames. \<exists>err'. getPostFromFilename e f' = Inl err' \<and>
      fetch_posts e filenames acc = Inl err'"
proof (induction filenames arbitrary: acc)
  case Nil
  then show ?case by simp
next
  case (Cons g gs)
  show ?case
  proof (cases "getPostFromFilename e g")
    case (Inl err')
    then show ?thesis by auto
  next
    case (Inr p)
    with Cons.prems have "f \<in> set gs" by auto
    from Cons.IH [OF this Cons.prems(2), of "acc @ [p]"] Inr show ?thesis by auto
  qed
qed

lemma getAllPosts_Inr:
  assumes "getAllPosts e = Inr posts"
  shows "\<exists>filenames fetched.
           readdirSync e (postsDirectory e) = Inr filenames \<and>
           list_all2 (\<lambda>f p. getPostFromFilename e f = Inr p) filenames fetched \<and>
           posts = array_sort compare_posts fetched"
proof -
  from assms obtain filenames where d: "readdirSync e (postsDirectory e) = Inr filenames"
    by (auto simp: getAllPosts_def split: sum.splits)
  with assms obtain ps where f: "fetch_posts e filenames [] = Inr ps"
    and s: "posts = array_sort compare_posts ps"
    by (auto simp: getAllPosts_def split: sum.splits)
  from fetch_posts_Inr [OF f] d s show ?thesis by auto
qed

lemma fetched_valid_dates:
  assumes "list_all2 (\<lambda>f p. getPostFromFilename e f = Inr p) filenames fetched"
  shows "set fetched \<subseteq> {p. date p \<noteq> None}"
proof
  fix p assume "p \<in> set fetched"
  then obtain i where "i < length fetched" "fetched ! i = p" by (auto simp: in_set_conv_nth)
  with assms have "getPostFromFilename e (filenames ! i) = Inr p"
    by (auto simp: list_all2_conv_all_nth)
  then show "p \<in> {p. date p \<noteq> None}"
    by (auto simp: getPostFromFilename_def dest: getPostFromSlug_valid_date)
qed

lemma array_sort_two:
  "array_sort cmp [x, y] = (if cmp y x < 0 then [y, x] else [x, y])"
proof -
  have m: "compute_min_run_length 2 = 2"
    by (simp add: compute_min_run_length_def min_run_loop.simps)
  have c: "count_and_make_run cmp [x, y] = (if cmp y x < 0 then [y, x] else [x, y], 2)"
    by (simp add: count_and_make_run_def Let_def)
  have n: "next_run cmp 2 [x, y] = (if cmp y x < 0 then [y, x] else [x, y], [])"
    by (simp add: next_run_def c)
  have mc: "merge_collapse cmp [r] = [r]" for r :: "'a list"
    by (subst merge_collapse.simps) simp
  have mf: "merge_force_collapse cmp [r] = [r]" for r :: "'a list"
    by (subst merge_force_collapse.simps) simp
  have e: "tim_sort_loop cmp 2 rs [] = rs" for rs :: "'a list list"
    by (subst tim_sort_loop.simps) simp
  have "tim_sort_loop cmp 2 [] [x, y] = [if cmp y x < 0 then [y, x] else [x, y]]"
    by (subst tim_sort_loop.simps) (simp add: n mc e)
  moreover have "compute_min_run_length (Suc (Suc 0)) = 2"
    using m by (simp add: numeral_2_eq_2)
  ultimately show ?thesis by (simp add: array_sort_def mf)
qed

subsection \<open>Slug and file name\<close>

lemma replace_md_end_append: "replace_md_end (s @ ''.md'') = s"
  by (induction s) auto

lemma replace_md_end_no_suffix: "\<not> suffix ''.md'' f \<Longrightarrow> replace_md_end f = f"
proof (induction f)
  case Nil
  show ?case by simp
next
  case (Cons c cs)
  from Cons.prems have ne: "c # cs \<noteq> ''.md''" by auto
  from Cons.prems have "\<not> suffix ''.md'' cs" by (simp add: suffix_Cons)
  with Cons.IH ne show ?case by simp
qed

lemma replace_md_end_cases:
  "replace_md_end f = (if suffix ''.md'' f then take (length f - 3) f else f)"
proof (cases "suffix ''.md'' f")
  case True
  then obtain s where "f = s @ ''.md''" by (auto simp: suffix_def)
  then show ?thesis using True by (simp add: replace_md_end_append del: replace_md_end.simps)
next
  case False
  then show ?thesis by (simp add: replace_md_end_no_suffix)
qed

text \<open>
  Where the round trip between file name and slug holds. Appending the extension and
  stripping it again gives back every slug. The other way round, stripping and appending
  gives back the file name exactly when it ends in \<^verbatim>\<open>.md\<close>.
\<close>

lemma slug_filename_round_trip:
  "(getFilenameFromSlug (getSlugFromFilename f) = f \<longleftrightarrow> suffix ''.md'' f) \<and>
   getSlugFromFilename (getFilenameFromSlug s) = s"
proof
  show "getFilenameFromSlug (getSlugFromFilename f) = f \<longleftrightarrow> suffix ''.md'' f"
  proof (cases "suffix ''.md'' f")
    case True
    then obtain t where "f = t @ ''.md''" by (auto simp: suffix_def)
    with True show ?thesis
      by (simp add: getFilenameFromSlug_def getSlugFromFilename_def replace_md_end_append
          del: replace_md_end.simps)
  next
    case False
    then show ?thesis
      by (simp add: getFilenameFromSlug_def getSlugFromFilename_def replace_md_end_no_suffix)
  qed
  show "getSlugFromFilename (getFilenameFromSlug s) = s"
    by (simp add: getFilenameFromSlug_def getSlugFromFilename_def replace_md_end_append
        del: replace_md_end.simps)
qed

lemma slug_filename_round_trip_example:
  "getFilenameFromSlug (getSlugFromFilename ''a.md'') = ''a.md'' \<and>
   getSlugFromFilename (getFilenameFromSlug ''a'') = ''a''"
proof -
  have "suffix ''.md'' ''a.md''" by (rule suffixI [of _ "''a''"]) simp
  with slug_filename_round_trip [of "''a.md''" "''a''"] show ?thesis by simp
qed

text \<open>
  C3. The round trip from a file name to its slug and back fails at \<^verbatim>\<open>notes.txt\<close>, a
  name that \<^verbatim>\<open>readdirSync\<close> can list. \<^verbatim>\<open>getFilenameFromSlug\<close> is documented as
  the inverse of \<^verbatim>\<open>getSlugFromFilename\<close>; here the slug is the name itself and the
  file name made from it is \<^verbatim>\<open>notes.txt.md\<close>. In the directory \<open>env_notes\<close> the post
  that \<^verbatim>\<open>getPostFromFilename\<close> returns for the entry \<^verbatim>\<open>notes.txt\<close> is therefore read
  from \<^verbatim>\<open>notes.txt.md\<close>, a file the directory does not list.
\<close>

theorem getFilenameFromSlug_not_inverse_at_notes_txt:
  "getSlugFromFilename ''notes.txt'' = ''notes.txt'' \<and>
   getFilenameFromSlug (getSlugFromFilename ''notes.txt'') = ''notes.txt.md'' \<and>
   getFilenameFromSlug (getSlugFromFilename ''notes.txt'') \<noteq> ''notes.txt'' \<and>
   getFilepathFromSlug env_notes (getSlugFromFilename ''notes.txt'') =
     ''/blog/_posts/notes.txt.md'' \<and>
   getPostFromFilename env_notes ''notes.txt'' = Inr post_notes"
proof -
  have s: "getSlugFromFilename ''notes.txt'' = ''notes.txt''"
    by (simp add: getSlugFromFilename_def)
  have f: "getFilenameFromSlug ''notes.txt'' = ''notes.txt.md''"
    by (simp add: getFilenameFromSlug_def)
  have p: "getFilepathFromSlug env_notes ''notes.txt'' = ''/blog/_posts/notes.txt.md''"
    by (simp add: getFilepathFromSlug_def f postsDirectory_def join_def env_notes_def)
  have g: "getPostFromFilename env_notes ''notes.txt'' = Inr post_notes"
    by code_simp
  from s f p g show ?thesis by simp
qed

subsection \<open>The friendly date\<close>

lemma length_dec_fixed: "length (dec_fixed w n) = w"
  by (induction w arbitrary: n) simp_all

lemma dec_fixed_zero: "dec_fixed w 0 = replicate w CHR ''0''"
proof (induction w)
  case 0
  show ?case by simp
next
  case (Suc w)
  have "digit_char 0 = CHR ''0''" by (simp add: digit_char_def)
  with Suc show ?case by (simp add: replicate_append_same)
qed

lemma pad_start_dec:
  "0 < w \<Longrightarrow> n < 10 ^ w \<Longrightarrow> pad_start w (dec n) = dec_fixed w (int n)"
proof (induction w arbitrary: n)
  case 0
  then show ?case by simp
next
  case (Suc w)
  show ?case
  proof (cases "n < 10")
    case True
    then have "dec n = [digit_char (int n)]" by (subst dec.simps) simp
    moreover from True have "int n div 10 = 0" by simp
    ultimately show ?thesis by (simp add: pad_start_def dec_fixed_zero)
  next
    case False
    then have d: "dec n = dec (n div 10) @ [digit_char (int n)]" by (subst dec.simps) simp
    from False Suc.prems have w: "0 < w"
      by (cases w) auto
    from Suc.prems have "n div 10 < 10 ^ w" by (simp add: less_mult_imp_div_less mult.commute)
    from Suc.IH [OF w this] have "pad_start w (dec (n div 10)) = dec_fixed w (int (n div 10))" .
    moreover have "int (n div 10) = int n div 10" by (simp add: zdiv_int)
    ultimately show ?thesis by (simp add: d pad_start_def)
  qed
qed

lemma getFriendlyDate_four_digit_year:
  assumes "0 \<le> YearFromTime t" and "YearFromTime t \<le> 9999"
  shows "getFriendlyDate (Some t) = Inr (ymd_rendering t)"
proof -
  define y where "y = YearFromTime t"
  from assms have "nat y < 10 ^ 4" by (simp add: y_def)
  with pad_start_dec [of 4 "nat y"] assms
  have p: "pad_start 4 (dec (nat y)) = dec_fixed 4 y" by (simp add: y_def)
  have l: "length (dec_fixed 4 y @ ''-'' @ dec_fixed 2 (MonthFromTime t + 1) @ ''-'' @
                   dec_fixed 2 (DateFromTime t)) = 10"
    by (simp only: length_append length_dec_fixed) simp
  have i: "iso_year y = dec_fixed 4 y" using assms by (simp add: iso_year_def y_def)
  have "toISOString (Some t) =
        Inr ((dec_fixed 4 y @ ''-'' @ dec_fixed 2 (MonthFromTime t + 1) @ ''-'' @
              dec_fixed 2 (DateFromTime t)) @
             ''T'' @ dec_fixed 2 (HourFromTime t) @ '':'' @ dec_fixed 2 (MinFromTime t) @
             '':'' @ dec_fixed 2 (SecFromTime t) @ ''.'' @ dec_fixed 3 (msFromTime t) @ ''Z'')"
    by (simp only: toISOString_def option.case i [unfolded y_def] y_def append_assoc)
  then have "getFriendlyDate (Some t) =
        Inr (dec_fixed 4 y @ ''-'' @ dec_fixed 2 (MonthFromTime t + 1) @ ''-'' @
             dec_fixed 2 (DateFromTime t))"
    using l by (simp only: getFriendlyDate_def sum.case substring0_def take_append) simp
  moreover have "ymd_rendering t =
        dec_fixed 4 y @ ''-'' @ dec_fixed 2 (MonthFromTime t + 1) @ ''-'' @
        dec_fixed 2 (DateFromTime t)"
    using assms p by (simp add: ymd_rendering_def Let_def y_def)
  ultimately show ?thesis by simp
qed

lemma getPostFromSlug_friendlyDate:
  "getPostFromSlug e s = Inr p \<Longrightarrow> getFriendlyDate (date p) = Inr (friendlyDate p)"
  by (auto simp: getPostFromSlug_def split: sum.splits prod.splits jsval.splits)

text \<open>
  Where the friendly date is as documented. For a date whose year has four digits (0 to
  9999), \<^verbatim>\<open>getFriendlyDate\<close> is the year-month-day rendering of the date. The friendly
  date of a post is \<^verbatim>\<open>getFriendlyDate\<close> of its date and of nothing else, so two posts
  with equal dates, of any two directories, have equal friendly dates.
\<close>

lemma friendlyDate_of_date:
  "(0 \<le> YearFromTime t \<and> YearFromTime t \<le> 9999 \<longrightarrow>
      getFriendlyDate (Some t) = Inr (ymd_rendering t)) \<and>
   (getPostFromSlug e s = Inr p \<longrightarrow> getFriendlyDate (date p) = Inr (friendlyDate p)) \<and>
   (getPostFromSlug e1 s1 = Inr q1 \<and> getPostFromSlug e2 s2 = Inr q2 \<and> date q1 = date q2 \<longrightarrow>
      friendlyDate q1 = friendlyDate q2)"
proof (intro conjI impI)
  assume "0 \<le> YearFromTime t \<and> YearFromTime t \<le> 9999"
  then show "getFriendlyDate (Some t) = Inr (ymd_rendering t)"
    by (simp add: getFriendlyDate_four_digit_year)
next
  assume "getPostFromSlug e s = Inr p"
  then show "getFriendlyDate (date p) = Inr (friendlyDate p)"
    by (rule getPostFromSlug_friendlyDate)
next
  assume h: "getPostFromSlug e1 s1 = Inr q1 \<and> getPostFromSlug e2 s2 = Inr q2 \<and> date q1 = date q2"
  from h have g1: "getPostFromSlug e1 s1 = Inr q1" and g2: "getPostFromSlug e2 s2 = Inr q2"
    and d: "date q1 = date q2" by simp_all
  from getPostFromSlug_friendlyDate [OF g1] getPostFromSlug_friendlyDate [OF g2] d
  show "friendlyDate q1 = friendlyDate q2" by simp
qed


lemma year_2024_08_11: "YearFromTime 1723334400000 = 2024"
  by code_simp

lemma friendlyDate_of_date_example:
  "0 \<le> YearFromTime 1723334400000 \<and> YearFromTime 1723334400000 \<le> 9999 \<and>
   getFriendlyDate (Some 1723334400000) = Inr ''2024-08-11'' \<and>
   ymd_rendering 1723334400000 = ''2024-08-11'' \<and>
   getPostFromSlug env_ties ''x'' = Inr post_x \<and> getPostFromSlug env_ties ''z'' = Inr post_z \<and>
   date post_x = date post_z \<and>
   getFriendlyDate (date post_x) = Inr (friendlyDate post_x) \<and>
   friendlyDate post_x = friendlyDate post_z"
proof -
  note t = friendlyDate_of_date
    [where t = 1723334400000 and e = env_ties and s = "''x''" and p = post_x
       and ?e1.0 = env_ties and ?s1.0 = "''x''" and ?q1.0 = post_x
       and ?e2.0 = env_ties and ?s2.0 = "''z''" and ?q2.0 = post_z]
  have y: "0 \<le> YearFromTime 1723334400000 \<and> YearFromTime 1723334400000 \<le> 9999"
    by (simp add: year_2024_08_11)
  have g: "getFriendlyDate (Some 1723334400000) = Inr ''2024-08-11''"
    by code_simp
  have x: "getPostFromSlug env_ties ''x'' = Inr post_x"
    and z: "getPostFromSlug env_ties ''z'' = Inr post_z"
    by code_simp+
  have d: "date post_x = date post_z" by (simp add: post_x_def post_z_def)
  from t y g have r: "ymd_rendering 1723334400000 = ''2024-08-11''" by simp
  from t x z d have "getFriendlyDate (date post_x) = Inr (friendlyDate post_x)"
    and "friendlyDate post_x = friendlyDate post_z" by simp_all
  with y g r x z d show ?thesis by simp
qed

text \<open>
  C7. The friendly date fails at the date 10000-01-01T00:00:00Z (time value
  253402300800000). \<^verbatim>\<open>getFriendlyDate\<close> is documented to return the date in the
  format \<^verbatim>\<open>YYYY-MM-DD\<close>. For a year beyond 9999 \<^verbatim>\<open>toISOString\<close> writes the expanded
  year, a sign and six digits, and the first ten characters are \<^verbatim>\<open>+010000-01\<close>: a sign,
  the year and the month, without the day. At 2024-08-11 the result has the format.
\<close>

theorem getFriendlyDate_year_10000:
  "toISOString (Some 253402300800000) = Inr ''+010000-01-01T00:00:00.000Z'' \<and>
   getFriendlyDate (Some 253402300800000) = Inr ''+010000-01'' \<and>
   \<not> is_ymd_format ''+010000-01'' \<and>
   getFriendlyDate (Some 1723334400000) = Inr ''2024-08-11'' \<and>
   is_ymd_format ''2024-08-11''"
proof -
  have a: "toISOString (Some 253402300800000) = Inr ''+010000-01-01T00:00:00.000Z''"
    by code_simp
  have b: "getFriendlyDate (Some 253402300800000) = Inr ''+010000-01''"
    by (simp add: getFriendlyDate_def a substring0_def)
  have c: "\<not> is_ymd_format ''+010000-01''"
    by (simp add: is_ymd_format_def is_digit_def)
  have d: "getFriendlyDate (Some 1723334400000) = Inr ''2024-08-11''"
    by code_simp
  have e: "is_ymd_format ''2024-08-11''"
    by (simp add: is_ymd_format_def is_digit_def)
  from a b c d e show ?thesis by simp
qed

subsection \<open>One post\<close>

text \<open>
  C5. A slug with no file behind it: when the file system has nothing at the path of the
  slug, \<^verbatim>\<open>getPostFromSlug\<close> fails with the \<^verbatim>\<open>ENOENT\<close> error of \<^verbatim>\<open>readFileSync\<close> for
  that path, and returns no record.
\<close>

theorem getPostFromSlug_missing_file:
  "fs e (getFilepathFromSlug e s) = None \<Longrightarrow>
   getPostFromSlug e s = Inl (ENOENT (getFilepathFromSlug e s))"
  by (simp add: getPostFromSlug_def readFileSync_def)

theorem getPostFromSlug_missing_file_witness:
  "fs env_ab (getFilepathFromSlug env_ab ''missing-slug'') = None \<and>
   getPostFromSlug env_ab ''missing-slug'' = Inl (ENOENT ''/blog/_posts/missing-slug.md'')"
proof -
  have none: "fs env_ab (getFilepathFromSlug env_ab ''missing-slug'') = None"
    by (simp add: env_ab_def getFilepathFromSlug_def getFilenameFromSlug_def
        postsDirectory_def join_def)
  have path: "getFilepathFromSlug env_ab ''missing-slug'' = ''/blog/_posts/missing-slug.md''"
    by (simp add: env_ab_def getFilepathFromSlug_def getFilenameFromSlug_def
        postsDirectory_def join_def)
  from getPostFromSlug_missing_file [OF none] none path show ?thesis by simp
qed

text \<open>
  C10. What a successful \<^verbatim>\<open>getPostFromSlug\<close> returns: the slug of the record is the slug
  asked for, its content is the body that gray-matter splits off the text of the file at
  the path of the slug, and its HTML is \<^verbatim>\<open>markdownToHtml\<close> of that content.
\<close>

theorem getPostFromSlug_fields:
  assumes "getPostFromSlug e s = Inr p"
  shows "slug p = s \<and>
         (\<exists>fileContents data.
            readFileSync e (getFilepathFromSlug e s) = Inr fileContents \<and>
            matter e fileContents = Inr (data, content p)) \<and>
         markdownToHtml e (content p) = Inr (contentHtml p)"
  using assms
  by (auto simp: getPostFromSlug_def split: sum.splits prod.splits jsval.splits)

theorem getPostFromSlug_fields_witness:
  "getPostFromSlug env_ab ''a'' = Inr post_a \<and> slug post_a = ''a'' \<and>
   (\<exists>fileContents data.
      readFileSync env_ab (getFilepathFromSlug env_ab ''a'') = Inr fileContents \<and>
      matter env_ab fileContents = Inr (data, content post_a)) \<and>
   markdownToHtml env_ab (content post_a) = Inr (contentHtml post_a)"
proof -
  have a: "getPostFromSlug env_ab ''a'' = Inr post_a"
    by code_simp
  from getPostFromSlug_fields [OF a] a show ?thesis by simp
qed

text \<open>
  C4. Missing metadata. When the front matter of the file has no \<^verbatim>\<open>date\<close>,
  \<^verbatim>\<open>getPostFromSlug\<close> fails with the \<^verbatim>\<open>TypeError\<close> of calling \<^verbatim>\<open>toISOString\<close> on
  \<^verbatim>\<open>undefined\<close> and returns no record. A missing \<^verbatim>\<open>title\<close> is not an error: when
  the date is a valid \<^verbatim>\<open>Date\<close> and the markdown renders, a record is returned, and its
  title is \<^verbatim>\<open>undefined\<close>.
\<close>

theorem getPostFromSlug_missing_metadata:
  assumes "readFileSync e (getFilepathFromSlug e s) = Inr fileContents"
    and "matter e fileContents = Inr (data, body)"
  shows "(data ''date'' = None \<longrightarrow> getPostFromSlug e s = Inl TypeError) \<and>
         (data ''title'' = None \<and> data ''date'' = Some (JDate (Some t)) \<and>
          markdownToHtml e body = Inr html \<longrightarrow>
            (\<exists>p. getPostFromSlug e s = Inr p \<and> title p = JUndefined \<and> date p = Some t \<and>
                 content p = body \<and> contentHtml p = html))"
  using assms
  by (auto simp: getPostFromSlug_def property_def getFriendlyDate_def toISOString_def)

theorem getPostFromSlug_missing_metadata_witness:
  "readFileSync env_mixed (getFilepathFromSlug env_mixed ''undated'') = Inr ''V'' \<and>
   matter env_mixed ''V'' = Inr (undated_data, ''body v'') \<and> undated_data ''date'' = None \<and>
   getPostFromSlug env_mixed ''undated'' = Inl TypeError \<and>
   readFileSync env_mixed (getFilepathFromSlug env_mixed ''untitled'') = Inr ''U'' \<and>
   matter env_mixed ''U'' = Inr (untitled_data, ''body u'') \<and> untitled_data ''title'' = None \<and>
   untitled_data ''date'' = Some (JDate (Some 1704067200000)) \<and>
   markdownToHtml env_mixed ''body u'' = Inr ''<p>body u</p>'' \<and>
   (\<exists>p. getPostFromSlug env_mixed ''untitled'' = Inr p \<and> title p = JUndefined \<and>
        date p = Some 1704067200000 \<and> content p = ''body u'' \<and>
        contentHtml p = ''<p>body u</p>'')"
proof -
  have rv: "readFileSync env_mixed (getFilepathFromSlug env_mixed ''undated'') = Inr ''V''"
    and ru: "readFileSync env_mixed (getFilepathFromSlug env_mixed ''untitled'') = Inr ''U''"
    by (simp_all add: env_mixed_def readFileSync_def getFilepathFromSlug_def
        getFilenameFromSlug_def postsDirectory_def join_def)
  have mv: "matter env_mixed ''V'' = Inr (undated_data, ''body v'')"
    and mu: "matter env_mixed ''U'' = Inr (untitled_data, ''body u'')"
    by (simp_all add: env_mixed_def)
  have dv: "undated_data ''date'' = None" by (simp add: undated_data_def)
  have tu: "untitled_data ''title'' = None"
    and du: "untitled_data ''date'' = Some (JDate (Some 1704067200000))"
    by (simp_all add: untitled_data_def)
  have h: "markdownToHtml env_mixed ''body u'' = Inr ''<p>body u</p>''"
    by (simp add: markdownToHtml_def env_mixed_def)
  from getPostFromSlug_missing_metadata [OF rv mv] dv
  have a: "getPostFromSlug env_mixed ''undated'' = Inl TypeError" by simp
  from getPostFromSlug_missing_metadata
    [OF ru mu, where t = 1704067200000 and html = "''<p>body u</p>''"] tu du h
  have b: "\<exists>p. getPostFromSlug env_mixed ''untitled'' = Inr p \<and> title p = JUndefined \<and>
        date p = Some 1704067200000 \<and> content p = ''body u'' \<and>
        contentHtml p = ''<p>body u</p>''" by simp
  from rv ru mv mu dv tu du h a b show ?thesis by simp
qed

theorem missing_title_counterexample:
  "readFileSync env_mixed (getFilepathFromSlug env_mixed ''untitled'') = Inr ''U'' \<and>
   matter env_mixed ''U'' = Inr (untitled_data, ''body u'') \<and> untitled_data ''title'' = None \<and>
   getPostFromSlug env_mixed ''untitled'' = Inr post_untitled \<and>
   title post_untitled = JUndefined"
proof -
  have "readFileSync env_mixed (getFilepathFromSlug env_mixed ''untitled'') = Inr ''U''"
    by (simp add: env_mixed_def readFileSync_def getFilepathFromSlug_def
        getFilenameFromSlug_def postsDirectory_def join_def)
  moreover have "matter env_mixed ''U'' = Inr (untitled_data, ''body u'')"
    by (simp add: env_mixed_def)
  moreover have "untitled_data ''title'' = None" by (simp add: untitled_data_def)
  moreover have "getPostFromSlug env_mixed ''untitled'' = Inr post_untitled"
    by code_simp
  moreover have "title post_untitled = JUndefined" by (simp add: post_untitled_def)
  ultimately show ?thesis by simp
qed

subsection \<open>The whole directory\<close>

lemma date_ge_of_times:
  "date x \<noteq> None \<Longrightarrow> date y \<noteq> None \<Longrightarrow> time_of y \<le> time_of x \<Longrightarrow>
   date_ge (date x) (date y)"
  by (auto simp: date_ge_def time_of_def)

lemma filter_date_valid:
  assumes "set xs \<subseteq> {p. date p \<noteq> None}"
  shows "filter (\<lambda>p. date p = d) xs =
         (case d of None \<Rightarrow> [] | Some t \<Rightarrow> filter (\<lambda>p. time_of p = t) xs)"
proof (cases d)
  case None
  with assms show ?thesis by (auto simp: filter_empty_conv)
next
  case (Some t)
  have "filter (\<lambda>p. date p = Some t) xs = filter (\<lambda>p. time_of p = t) xs"
    using assms by (intro filter_cong) (auto simp: time_of_def)
  with Some show ?thesis by simp
qed

text \<open>
  C1. The order of \<^verbatim>\<open>getAllPosts\<close>. Whenever it returns, the dates never increase along
  the list: each post's date is \<^verbatim>\<open>>=\<close> the date of every later post, in particular of the
  next one; and the list holds the posts of the listed files, each as often as it was
  fetched. And two files whose posts have different dates come out with the later date
  first, in whichever order the directory lists them.
\<close>

theorem getAllPosts_sorted_by_date_descending:
  "(getAllPosts e = Inr posts \<longrightarrow>
      sorted_wrt (\<lambda>p1 p2. date_ge (date p1) (date p2)) posts \<and>
      (\<forall>i. Suc i < length posts \<longrightarrow> date_ge (date (posts ! i)) (date (posts ! Suc i))) \<and>
      (\<exists>filenames fetched.
         readdirSync e (postsDirectory e) = Inr filenames \<and>
         list_all2 (\<lambda>f p. getPostFromFilename e f = Inr p) filenames fetched \<and>
         mset posts = mset fetched)) \<and>
   (readdirSync e (postsDirectory e) = Inr [f1, f2] \<and>
    getPostFromFilename e f1 = Inr p1 \<and> getPostFromFilename e f2 = Inr p2 \<and>
    date_gt (date p1) (date p2) \<longrightarrow> getAllPosts e = Inr [p1, p2]) \<and>
   (readdirSync e (postsDirectory e) = Inr [f1, f2] \<and>
    getPostFromFilename e f1 = Inr p1 \<and> getPostFromFilename e f2 = Inr p2 \<and>
    date_gt (date p2) (date p1) \<longrightarrow> getAllPosts e = Inr [p2, p1])"
proof (intro conjI impI)
  assume r: "getAllPosts e = Inr posts"
  from getAllPosts_Inr [OF r] obtain filenames fetched where
    l: "readdirSync e (postsDirectory e) = Inr filenames"
    and f: "list_all2 (\<lambda>f p. getPostFromFilename e f = Inr p) filenames fetched"
    and s: "posts = array_sort compare_posts fetched" by blast
  note v = fetched_valid_dates [OF f]
  note srt = array_sort_correct [OF compare_posts_orders v]
  from ties_kept_set [OF srt(2)] v s have vp: "set posts \<subseteq> {p. date p \<noteq> None}" by simp
  from ties_kept_mset [OF srt(2)] s have "mset posts = mset fetched" by simp
  with l f show "\<exists>filenames fetched.
         readdirSync e (postsDirectory e) = Inr filenames \<and>
         list_all2 (\<lambda>f p. getPostFromFilename e f = Inr p) filenames fetched \<and>
         mset posts = mset fetched" by blast
  from srt(1) s have "sorted_wrt (\<lambda>x y. time_of y \<le> time_of x) posts"
    by (simp add: desc_by_def)
  then show sorted: "sorted_wrt (\<lambda>p1 p2. date_ge (date p1) (date p2)) posts"
  proof (rule sorted_wrt_mono_rel [rotated])
    fix x y assume "x \<in> set posts" "y \<in> set posts" "time_of y \<le> time_of x"
    with vp show "date_ge (date x) (date y)" by (auto intro: date_ge_of_times)
  qed
  show "\<forall>i. Suc i < length posts \<longrightarrow> date_ge (date (posts ! i)) (date (posts ! Suc i))"
    using sorted by (auto simp: sorted_wrt_iff_nth_less)
next
  assume h: "readdirSync e (postsDirectory e) = Inr [f1, f2] \<and>
    getPostFromFilename e f1 = Inr p1 \<and> getPostFromFilename e f2 = Inr p2 \<and>
    date_gt (date p1) (date p2)"
  then have "\<not> date_gt (date p2) (date p1)" by (auto simp: date_gt_def split: option.splits)
  then have "array_sort compare_posts [p1, p2] = [p1, p2]"
    by (simp add: array_sort_two compare_posts_def)
  with h show "getAllPosts e = Inr [p1, p2]" by (simp add: getAllPosts_def)
next
  assume h: "readdirSync e (postsDirectory e) = Inr [f1, f2] \<and>
    getPostFromFilename e f1 = Inr p1 \<and> getPostFromFilename e f2 = Inr p2 \<and>
    date_gt (date p2) (date p1)"
  then have "array_sort compare_posts [p1, p2] = [p2, p1]"
    by (simp add: array_sort_two compare_posts_def)
  with h show "getAllPosts e = Inr [p2, p1]" by (simp add: getAllPosts_def)
qed

lemma env_ab_listing: "readdirSync env_ab (postsDirectory env_ab) = Inr [''a.md'', ''b.md'']"
  by (simp add: env_ab_def readdirSync_def postsDirectory_def join_def)

lemma env_ba_listing: "readdirSync env_ba (postsDirectory env_ba) = Inr [''b.md'', ''a.md'']"
  by (simp add: env_ba_def env_ab_def readdirSync_def postsDirectory_def join_def)

lemma env_ab_posts:
  "getPostFromFilename env_ab ''a.md'' = Inr post_a"
  "getPostFromFilename env_ab ''b.md'' = Inr post_b"
  by code_simp+

lemma env_ba_posts:
  "getPostFromFilename env_ba ''a.md'' = Inr post_a"
  "getPostFromFilename env_ba ''b.md'' = Inr post_b"
  by code_simp+

theorem getAllPosts_sorted_by_date_descending_witness:
  "getAllPosts env_ab = Inr [post_a, post_b] \<and> getAllPosts env_ba = Inr [post_a, post_b] \<and>
   sorted_wrt (\<lambda>p1 p2. date_ge (date p1) (date p2)) [post_a, post_b] \<and>
   date_ge (date post_a) (date post_b)"
proof -
  have gt: "date_gt (date post_a) (date post_b)"
    by (simp add: post_a_def post_b_def date_gt_def)
  note t1 = getAllPosts_sorted_by_date_descending
    [where e = env_ab and posts = "[post_a, post_b]" and ?f1.0 = "''a.md''" and ?f2.0 = "''b.md''"
       and ?p1.0 = post_a and ?p2.0 = post_b]
  note t2 = getAllPosts_sorted_by_date_descending
    [where e = env_ba and posts = "[post_a, post_b]" and ?f1.0 = "''b.md''" and ?f2.0 = "''a.md''"
       and ?p1.0 = post_b and ?p2.0 = post_a]
  from t1 env_ab_listing env_ab_posts gt have ab: "getAllPosts env_ab = Inr [post_a, post_b]"
    by blast
  from t2 env_ba_listing env_ba_posts gt have ba: "getAllPosts env_ba = Inr [post_a, post_b]"
    by blast
  from t1 ab have "sorted_wrt (\<lambda>p1 p2. date_ge (date p1) (date p2)) [post_a, post_b]"
    by blast
  with ab ba show ?thesis by simp
qed

text \<open>
  C2. Ties. Whenever \<^verbatim>\<open>getAllPosts\<close> returns, the posts of any one date stand in its
  result in the order in which the directory listing gave their files: \<open>fetched\<close> are the
  posts in the order of the listing, and selecting the posts of a date \<open>d\<close> from the
  result and from \<open>fetched\<close> gives the same list.
\<close>

theorem getAllPosts_keeps_order_of_equal_dates:
  assumes "getAllPosts e = Inr posts"
  shows "\<exists>filenames fetched.
           readdirSync e (postsDirectory e) = Inr filenames \<and>
           list_all2 (\<lambda>f p. getPostFromFilename e f = Inr p) filenames fetched \<and>
           (\<forall>d. filter (\<lambda>p. date p = d) posts = filter (\<lambda>p. date p = d) fetched)"
proof -
  from getAllPosts_Inr [OF assms] obtain filenames fetched where
    d: "readdirSync e (postsDirectory e) = Inr filenames"
    and f: "list_all2 (\<lambda>f p. getPostFromFilename e f = Inr p) filenames fetched"
    and s: "posts = array_sort compare_posts fetched" by blast
  note v = fetched_valid_dates [OF f]
  note srt = array_sort_correct [OF compare_posts_orders v]
  from ties_kept_set [OF srt(2)] v s have vp: "set posts \<subseteq> {p. date p \<noteq> None}" by simp
  from srt(2) s have t: "ties_kept time_of posts fetched" by simp
  have "filter (\<lambda>p. date p = d) posts = filter (\<lambda>p. date p = d) fetched" for d
  proof -
    have "filter (\<lambda>p. date p = d) posts =
          (case d of None \<Rightarrow> [] | Some t \<Rightarrow> filter (\<lambda>p. time_of p = t) posts)"
      by (rule filter_date_valid [OF vp])
    also have "\<dots> = (case d of None \<Rightarrow> [] | Some t \<Rightarrow> filter (\<lambda>p. time_of p = t) fetched)"
      using t by (simp add: ties_kept_def split: option.splits)
    also have "\<dots> = filter (\<lambda>p. date p = d) fetched"
      by (rule filter_date_valid [OF v, symmetric])
    finally show ?thesis .
  qed
  with d f show ?thesis by blast
qed

theorem getAllPosts_keeps_order_of_equal_dates_witness:
  "getAllPosts env_ties = Inr [post_y, post_x, post_z] \<and>
   filter (\<lambda>p. date p = Some 1704067200000) [post_y, post_x, post_z] = [post_x, post_z] \<and>
   (\<exists>filenames fetched.
      readdirSync env_ties (postsDirectory env_ties) = Inr filenames \<and>
      list_all2 (\<lambda>f p. getPostFromFilename env_ties f = Inr p) filenames fetched \<and>
      (\<forall>d. filter (\<lambda>p. date p = d) [post_y, post_x, post_z] = filter (\<lambda>p. date p = d) fetched))"
proof -
  have r: "getAllPosts env_ties = Inr [post_y, post_x, post_z]"
    by code_simp
  have "filter (\<lambda>p. date p = Some 1704067200000) [post_y, post_x, post_z] = [post_x, post_z]"
    by (simp add: post_x_def post_y_def post_z_def)
  with r getAllPosts_keeps_order_of_equal_dates [OF r] show ?thesis by simp
qed

text \<open>
  C6. A failing post fails \<^verbatim>\<open>getAllPosts\<close>. When the files listed before \<open>f\<close> all give
  a post and fetching \<open>f\<close> fails with \<open>err\<close>, \<^verbatim>\<open>getAllPosts\<close> fails with \<open>err\<close>; and
  when fetching any listed file fails, \<^verbatim>\<open>getAllPosts\<close> fails, with the error of a listed
  file, and returns no list.
\<close>

theorem getAllPosts_fails_with_post:
  "(readdirSync e (postsDirectory e) = Inr (pre @ f # rest) \<and>
    (\<forall>g\<in>set pre. \<exists>p. getPostFromFilename e g = Inr p) \<and>
    getPostFromFilename e f = Inl err \<longrightarrow> getAllPosts e = Inl err) \<and>
   (readdirSync e (postsDirectory e) = Inr filenames \<and> f' \<in> set filenames \<and>
    getPostFromFilename e f' = Inl err' \<longrightarrow>
      (\<exists>g\<in>set filenames. \<exists>err''. getPostFromFilename e g = Inl err'' \<and>
          getAllPosts e = Inl err''))"
proof (intro conjI impI)
  assume h: "readdirSync e (postsDirectory e) = Inr (pre @ f # rest) \<and>
    (\<forall>g\<in>set pre. \<exists>p. getPostFromFilename e g = Inr p) \<and>
    getPostFromFilename e f = Inl err"
  then have "fetch_posts e (pre @ f # rest) [] = Inl err"
    by (intro fetch_posts_first_failure) simp_all
  with h show "getAllPosts e = Inl err" by (simp add: getAllPosts_def)
next
  assume h: "readdirSync e (postsDirectory e) = Inr filenames \<and> f' \<in> set filenames \<and>
    getPostFromFilename e f' = Inl err'"
  then have m: "f' \<in> set filenames" and g: "getPostFromFilename e f' = Inl err'" by simp_all
  from fetch_posts_some_failure [OF m g, of "[]"] obtain g err'' where
    "g \<in> set filenames" "getPostFromFilename e g = Inl err''"
    "fetch_posts e filenames [] = Inl err''" by blast
  with h show "\<exists>g\<in>set filenames. \<exists>err''. getPostFromFilename e g = Inl err'' \<and>
          getAllPosts e = Inl err''"
    by (auto simp: getAllPosts_def)
qed

lemma env_mixed_listing:
  "readdirSync env_mixed (postsDirectory env_mixed) =
   Inr ([''untitled.md''] @ ''notes.txt'' # [''undated.md''])"
  by (simp add: env_mixed_def readdirSync_def postsDirectory_def join_def)

lemma env_mixed_posts:
  "getPostFromFilename env_mixed ''untitled.md'' = Inr post_untitled"
  "getPostFromFilename env_mixed ''notes.txt'' = Inl (ENOENT ''/blog/_posts/notes.txt.md'')"
  by code_simp+

theorem getAllPosts_fails_with_post_witness:
  "getPostFromFilename env_mixed ''untitled.md'' = Inr post_untitled \<and>
   getPostFromFilename env_mixed ''notes.txt'' = Inl (ENOENT ''/blog/_posts/notes.txt.md'') \<and>
   getAllPosts env_mixed = Inl (ENOENT ''/blog/_posts/notes.txt.md'')"
proof -
  note t = getAllPosts_fails_with_post
    [where e = env_mixed and pre = "[''untitled.md'']" and f = "''notes.txt''"
       and rest = "[''undated.md'']" and err = "ENOENT ''/blog/_posts/notes.txt.md''"]
  have "\<forall>g\<in>set [''untitled.md'']. \<exists>p. getPostFromFilename env_mixed g = Inr p"
    using env_mixed_posts(1) by simp
  with t env_mixed_listing env_mixed_posts
  have "getAllPosts env_mixed = Inl (ENOENT ''/blog/_posts/notes.txt.md'')" by blast
  with env_mixed_posts show ?thesis by simp
qed

text \<open>
  C9. No filter by file type. \<^verbatim>\<open>getAllSlugs\<close> gives one slug for each entry of the
  directory, in the order of the listing: the entry without its trailing \<^verbatim>\<open>.md\<close> when
  it has one, the entry itself otherwise. \<^verbatim>\<open>getAllPosts\<close> fetches every entry as the post
  of that slug, so when it returns, the slugs of its posts are the slugs of all the entries.
\<close>

theorem getAllSlugs_every_entry:
  assumes "readdirSync e (postsDirectory e) = Inr filenames"
  shows "getAllSlugs e = Inr (map without_md_extension filenames) \<and>
         getPostFromFilename e f = getPostFromSlug e (without_md_extension f) \<and>
         (getAllPosts e = Inr posts \<longrightarrow>
            mset (map slug posts) = mset (map without_md_extension filenames))"
proof (intro conjI impI)
  have w: "getSlugFromFilename g = without_md_extension g" for g
    by (simp add: getSlugFromFilename_def without_md_extension_def replace_md_end_cases)
  from assms show "getAllSlugs e = Inr (map without_md_extension filenames)"
    by (simp add: getAllSlugs_def w)
  show "getPostFromFilename e f = getPostFromSlug e (without_md_extension f)"
    by (simp add: getPostFromFilename_def w)
  assume r: "getAllPosts e = Inr posts"
  from getAllPosts_Inr [OF r] assms obtain fetched where
    f: "list_all2 (\<lambda>f p. getPostFromFilename e f = Inr p) filenames fetched"
    and s: "posts = array_sort compare_posts fetched" by auto
  note v = fetched_valid_dates [OF f]
  from array_sort_correct(2) [OF compare_posts_orders v] s
  have "mset posts = mset fetched" by (simp add: ties_kept_mset)
  then have "mset (map slug posts) = mset (map slug fetched)" by (metis mset_map)
  moreover have "map slug fetched = map without_md_extension filenames"
  proof (rule nth_equalityI)
    from f show "length (map slug fetched) = length (map without_md_extension filenames)"
      by (simp add: list_all2_lengthD)
    fix i assume "i < length (map slug fetched)"
    then have i: "i < length fetched" by simp
    with f have "getPostFromFilename e (filenames ! i) = Inr (fetched ! i)"
      by (simp add: list_all2_conv_all_nth)
    then have "slug (fetched ! i) = without_md_extension (filenames ! i)"
      by (simp add: getPostFromFilename_def w getPostFromSlug_slug)
    with i f show "map slug fetched ! i = map without_md_extension filenames ! i"
      by (simp add: list_all2_lengthD)
  qed
  ultimately show "mset (map slug posts) = mset (map without_md_extension filenames)" by simp
qed

theorem getAllSlugs_every_entry_witness:
  "readdirSync env_notes (postsDirectory env_notes) = Inr [''a.md'', ''notes.txt''] \<and>
   getAllSlugs env_notes = Inr [''a'', ''notes.txt''] \<and>
   getPostFromFilename env_notes ''notes.txt'' = getPostFromSlug env_notes ''notes.txt'' \<and>
   getAllPosts env_notes = Inr [post_notes, post_a] \<and>
   mset (map slug [post_notes, post_a]) = mset [''a'', ''notes.txt'']"
proof -
  have l: "readdirSync env_notes (postsDirectory env_notes) = Inr [''a.md'', ''notes.txt'']"
    by (simp add: env_notes_def readdirSync_def postsDirectory_def join_def)
  have r: "getAllPosts env_notes = Inr [post_notes, post_a]"
    by code_simp
  have "suffix ''.md'' ''a.md''" by (rule suffixI [of _ "''a''"]) simp
  then have w1: "without_md_extension ''a.md'' = ''a''"
    by (simp add: without_md_extension_def)
  have "\<not> suffix ''.md'' ''notes.txt''" by (simp add: suffix_def)
  then have w2: "without_md_extension ''notes.txt'' = ''notes.txt''"
    by (simp add: without_md_extension_def)
  from getAllSlugs_every_entry [OF l, where f = "''notes.txt''" and posts = "[post_notes, post_a]"]
    l r w1 w2 show ?thesis by simp
qed

end
